theory Spec2Isabelle
  imports Main "HOL-Library.Word" "HOL-Library.Sublist" "HOL-Library.Multiset"
begin

section \<open>Machine types\<close>

text \<open>
  The daemon is built for 64-bit Linux: \<^verbatim>\<open>size_t\<close> and \<^verbatim>\<open>uint64_t\<close> are 64-bit
  words, \<^verbatim>\<open>int\<close> is a 32-bit word read as two's complement, \<^verbatim>\<open>uint16_t\<close> is a
  16-bit word. Arithmetic on them wraps as the hardware does.
\<close>

type_synonym size_t = "64 word"
type_synonym uint64_t = "64 word"
type_synonym uint16_t = "16 word"
type_synonym c_int = "32 word"

section \<open>The work queue (work.c)\<close>

text \<open>
  \<^verbatim>\<open>enum wq_thread_control\<close> and \<^verbatim>\<open>struct worker_info\<close> are declared in work.h.
  The counters are \<^verbatim>\<open>size_t\<close> (they are printed with \<^verbatim>\<open>%zd\<close>, compared with the
  \<^verbatim>\<open>size_t\<close> argument of \<^verbatim>\<open>create_worker_threads\<close> and bounded by \<^verbatim>\<open>SIZE_MAX\<close>).
  The three mutexes and the condition variable carry no data and are left out:
  each function below is one critical section or one call, run atomically.
\<close>

datatype wq_thread_control = WQ_ORDERED | WQ_DYNAMIC | WQ_UNLIMITED

record 'w worker_info =
  pending_list :: "'w list"
  finished_list :: "'w list"
  nr_pending :: size_t
  nr_running :: size_t
  nr_threads :: size_t
  tm_end_of_protection :: uint64_t
  tc :: wq_thread_control

definition WQ_PROTECTION_PERIOD :: uint64_t where
  "WQ_PROTECTION_PERIOD = 1000"

definition SIZE_MAX :: size_t where
  "SIZE_MAX = - 1"

text \<open>
  \<^verbatim>\<open>wq_get_roof\<close>. The node count \<^verbatim>\<open>vinfo->nr_nodes\<close> is an \<^verbatim>\<open>int\<close> read from the
  membership layer; \<^verbatim>\<open>nr = nr_nodes * 2\<close> is an \<^verbatim>\<open>int\<close> product converted to
  \<^verbatim>\<open>uint64_t\<close> (sign extension). The \<^verbatim>\<open>default: panic\<close> branch is for values outside
  the enumeration, which the datatype excludes.
\<close>

fun wq_get_roof :: "c_int \<Rightarrow> wq_thread_control \<Rightarrow> uint64_t" where
  "wq_get_roof nr_nodes WQ_ORDERED = 1"
| "wq_get_roof nr_nodes WQ_DYNAMIC = scast (nr_nodes * 2)"
| "wq_get_roof nr_nodes WQ_UNLIMITED = SIZE_MAX"

text \<open>
  \<^verbatim>\<open>wq_need_grow\<close> and \<^verbatim>\<open>wq_need_shrink\<close>. The argument \<open>now\<close> is the value
  \<^verbatim>\<open>get_msec_time()\<close> returns in the call; each function reads the clock once on
  every path. The updated \<^verbatim>\<open>worker_info\<close> is returned beside the decision.
\<close>

definition wq_need_grow ::
  "uint64_t \<Rightarrow> c_int \<Rightarrow> 'w worker_info \<Rightarrow> bool \<times> 'w worker_info" where
  "wq_need_grow now nr_nodes wi =
     (if nr_threads wi < nr_pending wi + nr_running wi \<and>
         nr_threads wi * 2 \<le> wq_get_roof nr_nodes (tc wi)
      then (True, wi\<lparr>tm_end_of_protection := now + WQ_PROTECTION_PERIOD\<rparr>)
      else (False, wi))"

definition wq_need_shrink :: "uint64_t \<Rightarrow> 'w worker_info \<Rightarrow> bool \<times> 'w worker_info" where
  "wq_need_shrink now wi =
     (if nr_pending wi + nr_running wi \<le> nr_threads wi div 2
      then (tm_end_of_protection wi \<le> now, wi)
      else (False, wi\<lparr>tm_end_of_protection := now + WQ_PROTECTION_PERIOD\<rparr>))"

text \<open>
  \<^verbatim>\<open>create_worker_threads\<close>. \<open>pthread_ok k\<close> says whether the \<open>k\<close>-th call of
  \<^verbatim>\<open>pthread_create\<close> made by this invocation succeeds. The loop stops at the first
  failure and returns \<open>-1\<close> with the threads created so far.
\<close>

function create_worker_threads ::
  "(nat \<Rightarrow> bool) \<Rightarrow> nat \<Rightarrow> 'w worker_info \<Rightarrow> size_t \<Rightarrow> int \<times> 'w worker_info" where
  "create_worker_threads pthread_ok k wi n =
     (if nr_threads wi < n
      then (if pthread_ok k
            then create_worker_threads pthread_ok (Suc k)
                   (wi\<lparr>nr_threads := nr_threads wi + 1\<rparr>) n
            else (- 1, wi))
      else (0, wi))"
  by pat_completeness auto
termination
  by (relation "measure (\<lambda>(pthread_ok, k, wi, n). unat (n - nr_threads wi))")
    (simp_all add: add.commute diff_add_eq_diff_diff_swap measure_unat)

declare create_worker_threads.simps [simp del]

text \<open>
  \<^verbatim>\<open>queue_work\<close>, the critical section under \<^verbatim>\<open>pending_lock\<close>. The return value of
  \<^verbatim>\<open>create_worker_threads\<close> is ignored by the source.
\<close>

definition queue_work ::
  "(nat \<Rightarrow> bool) \<Rightarrow> uint64_t \<Rightarrow> c_int \<Rightarrow> 'w worker_info \<Rightarrow> 'w \<Rightarrow> 'w worker_info" where
  "queue_work pthread_ok now nr_nodes wi work =
     (let wi1 = wi\<lparr>nr_pending := nr_pending wi + 1\<rparr>;
          (grow, wi2) = wq_need_grow now nr_nodes wi1;
          wi3 = (if grow
                 then snd (create_worker_threads pthread_ok 0 wi2 (nr_threads wi2 * 2))
                 else wi2)
      in wi3\<lparr>pending_list := pending_list wi3 @ [work]\<rparr>)"

text \<open>
  One pass of the \<^verbatim>\<open>while (true)\<close> loop of \<^verbatim>\<open>worker_routine\<close>, from taking
  \<^verbatim>\<open>pending_lock\<close> to the point where the worker leaves the critical section: it
  exits (shrink), goes to sleep on the condition variable (empty list), or takes
  the head of the pending list to run it.
\<close>

datatype 'w worker_action = WorkerExit | WorkerWait | WorkerRun 'w

definition worker_routine_step ::
  "uint64_t \<Rightarrow> 'w worker_info \<Rightarrow> 'w worker_action \<times> 'w worker_info" where
  "worker_routine_step now wi =
     (let (shrink, wi1) = wq_need_shrink now wi in
      if shrink
      then (WorkerExit, wi1\<lparr>nr_running := nr_running wi1 - 1,
                               nr_threads := nr_threads wi1 - 1\<rparr>)
      else (case pending_list wi1 of
              [] \<Rightarrow> (WorkerWait, wi1\<lparr>nr_running := nr_running wi1 - 1\<rparr>)
            | work # rest \<Rightarrow>
                (WorkerRun work, wi1\<lparr>nr_pending := nr_pending wi1 - 1,
                                      pending_list := rest\<rparr>)))"

subsection \<open>Work items, worker threads and completion\<close>

text \<open>
  \<^verbatim>\<open>struct work\<close> (work.h): the list linkage \<^verbatim>\<open>w_list\<close>, the callback \<^verbatim>\<open>fn\<close> a
  worker runs (it may be \<^verbatim>\<open>NULL\<close>) and the callback \<^verbatim>\<open>done\<close>. A work item is
  identified by the address of its struct; the two function pointers are kept as
  numbers. What a callback does is not part of work.c: the model records that it
  was called.
\<close>

record work =
  w_addr :: nat
  w_fn :: "nat option"
  w_done :: nat

datatype wq_event = Queued work | FnReturned work | DoneCalled work

text \<open>
  Where a worker thread stands in \<^verbatim>\<open>worker_routine\<close>, between two of its critical
  sections: created and not yet counted in \<^verbatim>\<open>nr_running\<close>; at the top of the
  \<^verbatim>\<open>while (true)\<close> loop; inside \<^verbatim>\<open>pthread_cond_wait\<close>; holding an item it has
  unlinked from the pending list, before \<^verbatim>\<open>fn\<close>; holding it after \<^verbatim>\<open>fn\<close>; after
  linking it to the finished list, before \<^verbatim>\<open>eventfd_write\<close>; after \<^verbatim>\<open>break\<close>.
\<close>

datatype worker_state =
  WorkerStarted | WorkerLoop | WorkerSleeping | WorkerHolds work | WorkerRan work |
  WorkerSignals | WorkerGone

text \<open>
  One queue with its threads, the counter of the eventfd \<^verbatim>\<open>efd\<close>, the local list
  \<^verbatim>\<open>list\<close> of \<^verbatim>\<open>bs_thread_request_done\<close>, and the calls made so far.
\<close>

record wq_system =
  wq_info :: "work worker_info"
  wq_threads :: "worker_state list"
  wq_efd :: nat
  wq_done_list :: "work list"
  wq_trace :: "wq_event list"

text \<open>
  The remaining critical sections of \<^verbatim>\<open>worker_routine\<close>: the entry
  (\<^verbatim>\<open>nr_running++\<close>), the return from \<^verbatim>\<open>pthread_cond_wait\<close> (\<^verbatim>\<open>nr_running++\<close> and
  \<^verbatim>\<open>goto retest\<close>, which does not test for shrinking again), and
  \<^verbatim>\<open>list_add_tail\<close> to the finished list under \<^verbatim>\<open>finished_lock\<close>.
\<close>

definition worker_routine_enter :: "'w worker_info \<Rightarrow> 'w worker_info" where
  "worker_routine_enter wi = wi\<lparr>nr_running := nr_running wi + 1\<rparr>"

definition worker_routine_retest :: "'w worker_info \<Rightarrow> 'w worker_action \<times> 'w worker_info" where
  "worker_routine_retest wi =
     (let wi1 = wi\<lparr>nr_running := nr_running wi + 1\<rparr> in
      case pending_list wi1 of
        [] \<Rightarrow> (WorkerWait, wi1\<lparr>nr_running := nr_running wi1 - 1\<rparr>)
      | work # rest \<Rightarrow>
          (WorkerRun work, wi1\<lparr>nr_pending := nr_pending wi1 - 1, pending_list := rest\<rparr>))"

definition worker_routine_finish :: "'w worker_info \<Rightarrow> 'w \<Rightarrow> 'w worker_info" where
  "worker_routine_finish wi work = wi\<lparr>finished_list := finished_list wi @ [work]\<rparr>"

text \<open>
  The eventfd is created with \<^verbatim>\<open>eventfd(0, EFD_NONBLOCK)\<close>: a write adds to the
  counter, and fails when the counter would pass \<open>2^64 - 2\<close>; a read fails on a
  counter of zero, and otherwise returns the counter and resets it. The worker
  ignores the result of \<^verbatim>\<open>eventfd_write(efd, 1)\<close>.
\<close>

definition eventfd_write :: "nat \<Rightarrow> nat" where
  "eventfd_write c = (if c + 1 \<le> 18446744073709551614 then c + 1 else c)"

definition eventfd_read :: "nat \<Rightarrow> (nat \<times> nat) option" where
  "eventfd_read c = (if c = 0 then None else Some (c, 0))"

text \<open>
  \<^verbatim>\<open>bs_thread_request_done\<close>, the callback the event loop runs when \<^verbatim>\<open>efd\<close> is
  readable, for a \<^verbatim>\<open>worker_info_list\<close> of one queue. Entering it reads the eventfd,
  returns at once when the read fails, and otherwise splices the finished list to
  the head of the local list. Each pass of its \<^verbatim>\<open>while\<close> loop unlinks the first item
  of the local list and calls its \<^verbatim>\<open>done\<close>; with the local list empty the callback
  returns.
\<close>

definition bs_thread_request_done_enter :: "wq_system \<Rightarrow> wq_system" where
  "bs_thread_request_done_enter s =
     (case eventfd_read (wq_efd s) of
        None \<Rightarrow> s
      | Some (v, c) \<Rightarrow>
          s\<lparr>wq_efd := c,
            wq_done_list := finished_list (wq_info s) @ wq_done_list s,
            wq_info := (wq_info s)\<lparr>finished_list := []\<rparr>\<rparr>)"

definition bs_thread_request_done_next :: "wq_system \<Rightarrow> wq_system option" where
  "bs_thread_request_done_next s =
     (case wq_done_list s of
        [] \<Rightarrow> None
      | work # rest \<Rightarrow>
          Some (s\<lparr>wq_done_list := rest, wq_trace := wq_trace s @ [DoneCalled work]\<rparr>))"

text \<open>
  The items the queue owns: those a worker has still to run (linked to the pending
  list or held by a worker before \<^verbatim>\<open>fn\<close>), and those whose \<^verbatim>\<open>done\<close> is still to be
  called (held by a worker after \<^verbatim>\<open>fn\<close>, linked to the finished list or to the local
  list of the callback).
\<close>

fun holds_new :: "worker_state \<Rightarrow> work list" where
  "holds_new (WorkerHolds w) = [w]"
| "holds_new st = []"

fun holds_ran :: "worker_state \<Rightarrow> work list" where
  "holds_ran (WorkerRan w) = [w]"
| "holds_ran st = []"

definition wq_unrun :: "wq_system \<Rightarrow> work list" where
  "wq_unrun s = pending_list (wq_info s) @ concat (map holds_new (wq_threads s))"

definition wq_undone :: "wq_system \<Rightarrow> work list" where
  "wq_undone s =
     concat (map holds_ran (wq_threads s)) @ finished_list (wq_info s) @ wq_done_list s"

definition wq_owned :: "wq_system \<Rightarrow> work list" where
  "wq_owned s = wq_unrun s @ wq_undone s"


text \<open>
  The steps of the system, each one critical section or one call. A submitter calls
  \<^verbatim>\<open>queue_work\<close> with an item the queue does not own (linking a \<^verbatim>\<open>w_list\<close> that is
  already linked corrupts the lists, so such a call is no step); the threads that
  \<^verbatim>\<open>create_worker_threads\<close> made start at \<^verbatim>\<open>worker_routine\<close>. A worker thread takes
  its next step. The event loop enters the callback, which has returned from its
  last call, or the callback makes its next call of \<^verbatim>\<open>done\<close>. The clock, the node
  count and the outcome of \<^verbatim>\<open>pthread_create\<close> come with the step.
\<close>

datatype wq_action =
  QueueWork work uint64_t c_int "nat \<Rightarrow> bool"
| WorkerStep nat uint64_t
| CompletionEnter
| CompletionNext

fun worker_state_of :: "work worker_action \<Rightarrow> worker_state" where
  "worker_state_of WorkerExit = WorkerGone"
| "worker_state_of WorkerWait = WorkerSleeping"
| "worker_state_of (WorkerRun w) = WorkerHolds w"

definition worker_step :: "nat \<Rightarrow> uint64_t \<Rightarrow> wq_system \<Rightarrow> wq_system option" where
  "worker_step t now s =
     (if t < length (wq_threads s)
      then (case wq_threads s ! t of
              WorkerStarted \<Rightarrow>
                Some (s\<lparr>wq_info := worker_routine_enter (wq_info s),
                        wq_threads := (wq_threads s)[t := WorkerLoop]\<rparr>)
            | WorkerLoop \<Rightarrow>
                (let (act, wi) = worker_routine_step now (wq_info s) in
                 Some (s\<lparr>wq_info := wi,
                         wq_threads := (wq_threads s)[t := worker_state_of act]\<rparr>))
            | WorkerSleeping \<Rightarrow>
                (let (act, wi) = worker_routine_retest (wq_info s) in
                 Some (s\<lparr>wq_info := wi,
                         wq_threads := (wq_threads s)[t := worker_state_of act]\<rparr>))
            | WorkerHolds w \<Rightarrow>
                Some (s\<lparr>wq_threads := (wq_threads s)[t := WorkerRan w],
                        wq_trace := wq_trace s @
                          (if w_fn w = None then [] else [FnReturned w])\<rparr>)
            | WorkerRan w \<Rightarrow>
                Some (s\<lparr>wq_info := worker_routine_finish (wq_info s) w,
                        wq_threads := (wq_threads s)[t := WorkerSignals]\<rparr>)
            | WorkerSignals \<Rightarrow>
                Some (s\<lparr>wq_efd := eventfd_write (wq_efd s),
                        wq_threads := (wq_threads s)[t := WorkerLoop]\<rparr>)
            | WorkerGone \<Rightarrow> None)
      else None)"

fun wq_step :: "wq_action \<Rightarrow> wq_system \<Rightarrow> wq_system option" where
  "wq_step (QueueWork w now nr_nodes pthread_ok) s =
     (if w_addr w \<in> set (map w_addr (wq_owned s)) then None
      else (let wi = queue_work pthread_ok now nr_nodes (wq_info s) w in
            Some (s\<lparr>wq_info := wi,
                    wq_threads := wq_threads s @
                      replicate (unat (nr_threads wi - nr_threads (wq_info s))) WorkerStarted,
                    wq_trace := wq_trace s @ [Queued w]\<rparr>)))"
| "wq_step (WorkerStep t now) s = worker_step t now s"
| "wq_step CompletionEnter s =
     (if wq_done_list s = [] then Some (bs_thread_request_done_enter s) else None)"
| "wq_step CompletionNext s = bs_thread_request_done_next s"

fun wq_run :: "wq_action list \<Rightarrow> wq_system \<Rightarrow> wq_system option" where
  "wq_run [] s = Some s"
| "wq_run (a # as) s = (case wq_step a s of None \<Rightarrow> None | Some s' \<Rightarrow> wq_run as s')"


text \<open>
  The calls recorded in a trace.
\<close>

fun submitted :: "wq_event list \<Rightarrow> work list" where
  "submitted [] = []"
| "submitted (Queued w # es) = w # submitted es"
| "submitted (e # es) = submitted es"

fun fn_returned :: "wq_event list \<Rightarrow> work list" where
  "fn_returned [] = []"
| "fn_returned (FnReturned w # es) = w # fn_returned es"
| "fn_returned (e # es) = fn_returned es"

fun done_called :: "wq_event list \<Rightarrow> work list" where
  "done_called [] = []"
| "done_called (DoneCalled w # es) = w # done_called es"
| "done_called (e # es) = done_called es"



section \<open>The multi-disk layer (sheep/md.c)\<close>

subsection \<open>Data\<close>

text \<open>
  \<^verbatim>\<open>struct disk\<close> and \<^verbatim>\<open>struct vdisk\<close>. A path is a NUL-terminated string shorter than
  \<^verbatim>\<open>PATH_MAX\<close>, so \<^verbatim>\<open>pstrcpy\<close> and \<^verbatim>\<open>snprintf\<close> copy it whole and \<^verbatim>\<open>strcmp\<close> is
  equality of strings.
\<close>

record disk =
  disk_path :: string
  disk_nr_vdisks :: uint16_t
  disk_space :: uint64_t

record vdisk =
  vdisk_idx :: uint16_t
  vdisk_id :: uint64_t

datatype sd_res =
  SD_RES_SUCCESS | SD_RES_UNKNOWN | SD_RES_EIO | SD_RES_NETWORK_ERROR | SD_RES_NO_OBJ

text \<open>
  What C leaves undefined is an error value of the model: a read or write outside a
  static array, and a null pointer handed to a string function.
\<close>

datatype md_error = OutOfBounds | NullPointer

subsection \<open>Hashing\<close>

definition FNV1A_64_INIT :: uint64_t where
  "FNV1A_64_INIT = 0xcbf29ce484222325"

definition FNV_64_PRIME :: uint64_t where
  "FNV_64_PRIME = 0x100000001b3"

text \<open>
  Modelled from the spec: \<^verbatim>\<open>fnv_64a_buf\<close> is declared in util.h, which is not among
  the sources. The spec names it FNV-1a/64 with offset \<^verbatim>\<open>0xcbf29ce484222325\<close> and
  prime \<^verbatim>\<open>0x100000001b3\<close>: each byte is xor-ed into the hash, which is then
  multiplied by the prime.
\<close>

fun fnv_64a_buf :: "8 word list \<Rightarrow> uint64_t \<Rightarrow> uint64_t" where
  "fnv_64a_buf [] hval = hval"
| "fnv_64a_buf (b # bs) hval = fnv_64a_buf bs ((xor hval (ucast b)) * FNV_64_PRIME)"

text \<open>
  The bytes of an object in memory, lowest address first. The target is
  little-endian (x86-64), as the 8-byte attribute format of the spec assumes.
\<close>

definition bytes_of_uint64 :: "uint64_t \<Rightarrow> 8 word list" where
  "bytes_of_uint64 w = map (\<lambda>k. ucast (drop_bit (8 * k) w)) [0..<8]"

definition bytes_of_int :: "c_int \<Rightarrow> 8 word list" where
  "bytes_of_int w = map (\<lambda>k. ucast (drop_bit (8 * k) w)) [0..<4]"

definition bytes_of_string :: "string \<Rightarrow> 8 word list" where
  "bytes_of_string s = map of_char s"

subsection \<open>The ring\<close>

text \<open>
  C integer division truncates towards zero.
\<close>

definition c_div :: "int \<Rightarrow> int \<Rightarrow> int" where
  "c_div a b = sgn a * sgn b * (\<bar>a\<bar> div \<bar>b\<bar>)"

definition vds_at :: "vdisk list \<Rightarrow> int \<Rightarrow> md_error + vdisk" where
  "vds_at vds i = (if 0 \<le> i \<and> i < int (length vds) then Inr (vds ! nat i) else Inl OutOfBounds)"

text \<open>
  \<^verbatim>\<open>oid_to_vdisk_from\<close>: the \<^verbatim>\<open>for (;;)\<close> loop, which has no exit but its
  \<^verbatim>\<open>return\<close>. Not returning is the value \<open>None\<close>.
\<close>

partial_function (option) oid_to_vdisk_loop ::
  "vdisk list \<Rightarrow> int \<Rightarrow> int \<Rightarrow> uint64_t \<Rightarrow> (md_error + vdisk) option" where
  "oid_to_vdisk_loop vds start endi hid =
     (let pos = c_div (endi - start) 2 + start in
      case vds_at vds pos of
        Inl e \<Rightarrow> Some (Inl e)
      | Inr vp \<Rightarrow>
          if vdisk_id vp < hid
          then (case vds_at vds (pos + 1) of
                  Inl e \<Rightarrow> Some (Inl e)
                | Inr vn \<Rightarrow>
                    if vdisk_id vn \<ge> hid then Some (Inr vn)
                    else oid_to_vdisk_loop vds pos endi hid)
          else oid_to_vdisk_loop vds start pos hid)"

definition oid_to_vdisk_from :: "vdisk list \<Rightarrow> int \<Rightarrow> uint64_t \<Rightarrow> (md_error + vdisk) option" where
  "oid_to_vdisk_from vds nr oid =
     (let hid = fnv_64a_buf (bytes_of_uint64 oid) FNV1A_64_INIT;
          start = 0;
          endi = nr - 1
      in case vds_at vds endi of
           Inl e \<Rightarrow> Some (Inl e)
         | Inr ve \<Rightarrow>
             (case vds_at vds start of
                Inl e \<Rightarrow> Some (Inl e)
              | Inr vs \<Rightarrow>
                  if hid > vdisk_id ve \<or> hid < vdisk_id vs then Some (Inr vs)
                  else oid_to_vdisk_loop vds start endi hid))"

text \<open>
  \<^verbatim>\<open>disks_to_vdisks\<close>. The inner loops of one disk: \<open>n\<close> more points, each made by
  hashing the four bytes of the counter \<^verbatim>\<open>nmds\<close> and then the path from its last
  character to its first into the running hash.
\<close>

fun disk_points :: "c_int \<Rightarrow> string \<Rightarrow> uint16_t \<Rightarrow> nat \<Rightarrow> uint64_t \<Rightarrow> vdisk list" where
  "disk_points nmds p ix 0 hval = []"
| "disk_points nmds p ix (Suc n) hval =
     (let h = fnv_64a_buf (bytes_of_string (rev p)) (fnv_64a_buf (bytes_of_int nmds) hval)
      in \<lparr>vdisk_idx = ix, vdisk_id = h\<rparr> # disk_points nmds p ix n h)"

text \<open>
  The outer \<^verbatim>\<open>while (nmds--)\<close> loop over the disks still to visit: inside the body
  \<^verbatim>\<open>nmds\<close> is the number of disks after the current one, and \<open>k\<close> is
  \<^verbatim>\<open>d_iter - ds\<close>.
\<close>

fun disks_points :: "disk list \<Rightarrow> nat \<Rightarrow> vdisk list" where
  "disks_points [] k = []"
| "disks_points (d # ds) k =
     disk_points (of_nat (length ds)) (disk_path d) (of_nat k) (unat (disk_nr_vdisks d))
       FNV1A_64_INIT @ disks_points ds (Suc k)"

text \<open>
  The points are written to \<^verbatim>\<open>vds[0]\<close>, \<^verbatim>\<open>vds[1]\<close>, ... and the written prefix is sorted
  by \<^verbatim>\<open>qsort\<close> with \<^verbatim>\<open>vdisk_cmp\<close>, ascending in \<^verbatim>\<open>id\<close>. \<^verbatim>\<open>qsort\<close> leaves the order of
  entries with equal ids open; the model keeps them in the order written. The rest of
  the array keeps its old content.
\<close>

definition disks_to_vdisks :: "disk list \<Rightarrow> nat \<Rightarrow> vdisk list \<Rightarrow> md_error + nat \<times> vdisk list" where
  "disks_to_vdisks ds nmds vds =
     (if nmds \<le> length ds
      then (let new = disks_points (take nmds ds) 0 in
            if length new \<le> length vds
            then Inr (length new, sort_key vdisk_id new @ drop (length new) vds)
            else Inl OutOfBounds)
      else Inl OutOfBounds)"

subsection \<open>The file system seen from one disk path\<close>

text \<open>
  What the system calls of md.c return for a path is an input of the model:
  \<^verbatim>\<open>is_xattr_enabled\<close>, \<^verbatim>\<open>xmkdir\<close> of the path and of its \<^verbatim>\<open>.stale\<close> directory,
  \<^verbatim>\<open>getxattr\<close> and \<^verbatim>\<open>setxattr\<close> of \<^verbatim>\<open>user.md.size\<close>, \<^verbatim>\<open>statvfs\<close> (the fields
  \<^verbatim>\<open>f_frsize\<close> and \<^verbatim>\<open>f_bfree\<close>) and the names \<^verbatim>\<open>opendir\<close>/\<^verbatim>\<open>readdir\<close> list.
  \<^verbatim>\<open>getxattr\<close> fails with \<^verbatim>\<open>ENODATA\<close> (attribute absent) or with another error.
\<close>

datatype xattr_result = XattrValue uint64_t | XattrNoData | XattrError

record path_fs =
  xattr_enabled :: bool
  mkdir_ok :: bool
  stale_mkdir_ok :: bool
  md_size_xattr :: xattr_result
  setxattr_ok :: bool
  statvfs_res :: "(uint64_t \<times> uint64_t) option"
  dirents :: "string list option"

text \<open>
  The functions md.c calls and this development does not define: the vdisk count
  \<^verbatim>\<open>rintf(MD_DEFAULT_VDISKS * ((float)space / (float)avg_size))\<close> of
  \<^verbatim>\<open>calculate_vdisks\<close>, a floating-point computation taken as a function of
  \<^verbatim>\<open>space\<close> and \<^verbatim>\<open>avg_size\<close>; \<^verbatim>\<open>get_objsize\<close>; and what \<^verbatim>\<open>queue_work\<close> reads from its
  surroundings (the outcome of \<^verbatim>\<open>pthread_create\<close>, the clock, the node count).
\<close>

record md_env =
  env_rintf_vdisks :: "uint64_t \<Rightarrow> uint64_t \<Rightarrow> uint16_t"
  env_get_objsize :: "uint64_t \<Rightarrow> uint64_t"
  env_pthread_ok :: "nat \<Rightarrow> bool"
  env_msec_time :: uint64_t
  env_nr_nodes :: c_int

text \<open>
  \<^verbatim>\<open>strtoull(s, NULL, 16)\<close> of the C library: white space, an optional sign, an
  optional \<^verbatim>\<open>0x\<close>, then the longest run of hexadecimal digits; \<^verbatim>\<open>ULLONG_MAX\<close> on
  overflow.
\<close>

definition isspace_c :: "char \<Rightarrow> bool" where
  "isspace_c c = ((of_char c :: nat) = 32 \<or> (9 \<le> (of_char c :: nat) \<and> (of_char c :: nat) \<le> 13))"

definition hex_val :: "char \<Rightarrow> nat option" where
  "hex_val c =
     (let n = (of_char c :: nat) in
      if 48 \<le> n \<and> n \<le> 57 then Some (n - 48)
      else if 97 \<le> n \<and> n \<le> 102 then Some (n - 87)
      else if 65 \<le> n \<and> n \<le> 70 then Some (n - 55)
      else None)"

fun hex_prefix_value :: "string \<Rightarrow> nat \<Rightarrow> nat" where
  "hex_prefix_value [] acc = acc"
| "hex_prefix_value (c # cs) acc =
     (case hex_val c of None \<Rightarrow> acc | Some v \<Rightarrow> hex_prefix_value cs (16 * acc + v))"

definition strtoull16 :: "string \<Rightarrow> uint64_t" where
  "strtoull16 s =
     (let s1 = dropWhile isspace_c s;
          neg = (take 1 s1 = ''-'');
          s2 = (if take 1 s1 = ''-'' \<or> take 1 s1 = ''+'' then drop 1 s1 else s1);
          s3 = (if (take 2 s2 = ''0x'' \<or> take 2 s2 = ''0X'') \<and>
                   (case drop 2 s2 of [] \<Rightarrow> False | c # cs \<Rightarrow> hex_val c \<noteq> None)
                then drop 2 s2 else s2);
          v = hex_prefix_value s3 0
      in if 18446744073709551616 \<le> v then - 1 else if neg then - of_nat v else of_nat v)"

text \<open>The format \<^verbatim>\<open>%016x\<close> of a 64-bit value.\<close>

definition hex16 :: "uint64_t \<Rightarrow> string" where
  "hex16 w = map (\<lambda>k. ''0123456789abcdef'' ! unat (take_bit 4 (drop_bit (4 * (15 - k)) w))) [0..<16]"

text \<open>
  \<^verbatim>\<open>for_each_object_in_path\<close>: the \<^verbatim>\<open>readdir\<close> loop over the names of the directory.
  The callback takes the object identifier and its accumulator \<^verbatim>\<open>arg\<close> and returns a
  result code with the new accumulator. The third component lists the temporary
  files handed to \<^verbatim>\<open>unlink\<close>.
\<close>

fun readdir_loop ::
  "(uint64_t \<Rightarrow> 'a \<Rightarrow> sd_res \<times> 'a) \<Rightarrow> bool \<Rightarrow> string list \<Rightarrow> 'a \<Rightarrow> sd_res \<times> 'a \<times> string list" where
  "readdir_loop func cleanup [] arg = (SD_RES_SUCCESS, arg, [])"
| "readdir_loop func cleanup (d # ds) arg =
     (if take 1 d = ''.'' then readdir_loop func cleanup ds arg
      else if strtoull16 d = 0 \<or> strtoull16 d = - 1 then readdir_loop func cleanup ds arg
      else if length d = 20 \<and> drop 16 d = ''.tmp''
      then (case readdir_loop func cleanup ds arg of
              (ret, arg', unlinked) \<Rightarrow>
                (ret, arg', if cleanup then (hex16 (strtoull16 d) @ ''.tmp'') # unlinked
                            else unlinked))
      else (case func (strtoull16 d) arg of
              (ret, arg') \<Rightarrow>
                if ret \<noteq> SD_RES_SUCCESS then (ret, arg', [])
                else readdir_loop func cleanup ds arg'))"

definition for_each_object_in_path ::
  "path_fs \<Rightarrow> (uint64_t \<Rightarrow> 'a \<Rightarrow> sd_res \<times> 'a) \<Rightarrow> bool \<Rightarrow> 'a \<Rightarrow> sd_res \<times> 'a \<times> path_fs" where
  "for_each_object_in_path pf func cleanup arg =
     (case dirents pf of
        None \<Rightarrow> (SD_RES_EIO, arg, pf)
      | Some ds \<Rightarrow>
          (case readdir_loop func cleanup ds arg of
             (ret, arg', unlinked) \<Rightarrow>
               (ret, arg', pf\<lparr>dirents := Some (filter (\<lambda>d. d \<notin> set unlinked) ds)\<rparr>)))"

definition get_total_object_size :: "md_env \<Rightarrow> uint64_t \<Rightarrow> uint64_t \<Rightarrow> sd_res \<times> uint64_t" where
  "get_total_object_size env oid tot = (SD_RES_SUCCESS, tot + env_get_objsize env oid)"

text \<open>
  \<^verbatim>\<open>get_path_size\<close>. The pointer \<^verbatim>\<open>used\<close> is \<open>None\<close> when it is \<^verbatim>\<open>NULL\<close>; otherwise it
  holds the counter it points to, returned updated. The product
  \<^verbatim>\<open>(int64_t)fs.f_frsize * fs.f_bfree\<close> is taken in 64 bits.
\<close>

definition get_path_size ::
  "md_env \<Rightarrow> path_fs \<Rightarrow> uint64_t option \<Rightarrow> uint64_t \<times> uint64_t option" where
  "get_path_size env pf used =
     (case statvfs_res pf of
        None \<Rightarrow> (0, used)
      | Some (f_frsize, f_bfree) \<Rightarrow>
          (let sz = f_frsize * f_bfree in
           case used of
             None \<Rightarrow> (sz, None)
           | Some u \<Rightarrow>
               (case for_each_object_in_path pf (get_total_object_size env) False u of
                  (ret, u', pf') \<Rightarrow>
                    if ret \<noteq> SD_RES_SUCCESS then (0, Some u') else (sz, Some u'))))"

text \<open>
  \<^verbatim>\<open>init_path_space\<close>: the returned size and the file system of the path afterwards
  (a successful \<^verbatim>\<open>setxattr\<close> stores the attribute).
\<close>

definition init_path_space :: "md_env \<Rightarrow> path_fs \<Rightarrow> uint64_t \<times> path_fs" where
  "init_path_space env pf =
     (if \<not> xattr_enabled pf then (0, pf)
      else if \<not> stale_mkdir_ok pf then (0, pf)
      else (case md_size_xattr pf of
              XattrValue sz \<Rightarrow> (sz, pf)
            | XattrError \<Rightarrow> (0, pf)
            | XattrNoData \<Rightarrow>
                (let sz = fst (get_path_size env pf None) in
                 if sz = 0 then (0, pf)
                 else if \<not> setxattr_ok pf then (0, pf)
                 else (sz, pf\<lparr>md_size_xattr := XattrValue sz\<rparr>))))"

subsection \<open>The state of md.c\<close>

text \<open>
  A work item of \<^verbatim>\<open>sys->md_wqueue\<close>: \<^verbatim>\<open>struct md_work\<close>, with the callbacks of its
  \<^verbatim>\<open>struct work\<close> named rather than pointed to.
\<close>

datatype work_callback = MD_DO_RECOVER

record md_work =
  work_fn :: "work_callback option"
  work_done :: "work_callback option"
  mw_path :: string

text \<open>
  The static arrays \<^verbatim>\<open>md_disks[MD_MAX_DISK]\<close> and \<^verbatim>\<open>md_vds[MD_MAX_VDISK]\<close> are lists
  of their full length: \<^verbatim>\<open>MD_MAX_DISK\<close> (defined in sheep_priv.h) is the length of
  \<open>md_disks\<close>. The counters \<^verbatim>\<open>md_nr_disks\<close> and \<^verbatim>\<open>md_nr_vds\<close> say how many leading slots
  are in use; a slot beyond them keeps what was last written to it. The counters are
  \<^verbatim>\<open>int\<close>s that the code never takes below zero (\<^verbatim>\<open>remove_disk\<close> is only called with
  an index below \<^verbatim>\<open>md_nr_disks\<close>), modelled as natural numbers. Beside them stand the
  fields of \<^verbatim>\<open>sys\<close> that md.c uses, the legacy \<^verbatim>\<open>obj_path\<close>, the number of calls of
  \<^verbatim>\<open>start_recovery\<close> made so far, and the file system.
\<close>

record md_state =
  md_disks :: "disk list"
  md_vds :: "vdisk list"
  md_nr_disks :: nat
  md_nr_vds :: nat
  sys_enable_md :: bool
  sys_disk_space :: uint64_t
  sys_md_wqueue :: "md_work worker_info"
  obj_path :: string
  started_recoveries :: nat
  md_fs :: "string \<Rightarrow> path_fs"

definition nr_online_disks :: "md_state \<Rightarrow> nat" where
  "nr_online_disks s = md_nr_disks s"

definition oid_to_vdisk :: "md_state \<Rightarrow> uint64_t \<Rightarrow> (md_error + vdisk) option" where
  "oid_to_vdisk s oid = oid_to_vdisk_from (md_vds s) (int (md_nr_vds s)) oid"

function path_to_disk_idx_from :: "md_state \<Rightarrow> string \<Rightarrow> nat \<Rightarrow> md_error + int" where
  "path_to_disk_idx_from s p i =
     (if i < md_nr_disks s
      then (if i < length (md_disks s)
            then (if disk_path (md_disks s ! i) = p then Inr (int i)
                  else path_to_disk_idx_from s p (Suc i))
            else Inl OutOfBounds)
      else Inr (- 1))"
  by pat_completeness auto
termination
  by (relation "measure (\<lambda>(s, p, i). md_nr_disks s - i)") auto

declare path_to_disk_idx_from.simps [simp del]

definition path_to_disk_idx :: "md_state \<Rightarrow> string \<Rightarrow> md_error + int" where
  "path_to_disk_idx s p = path_to_disk_idx_from s p 0"

text \<open>
  \<^verbatim>\<open>md_add_disk\<close>. The counter is incremented and the path is copied into slot
  \<^verbatim>\<open>md_nr_disks - 1\<close>; the source does not compare the counter with \<^verbatim>\<open>MD_MAX_DISK\<close>,
  so with a full array the copy goes past its end.
\<close>

definition md_add_disk :: "md_state \<Rightarrow> string \<Rightarrow> md_error + md_state" where
  "md_add_disk s p =
     (case path_to_disk_idx s p of
        Inl e \<Rightarrow> Inl e
      | Inr i \<Rightarrow>
          if i \<noteq> - 1 then Inr s
          else if \<not> mkdir_ok (md_fs s p) then Inr s
          else (let n = md_nr_disks s + 1 in
                if n - 1 < length (md_disks s)
                then Inr (s\<lparr>md_nr_disks := n,
                           md_disks := (md_disks s)[n - 1 := (md_disks s ! (n - 1))\<lparr>disk_path := p\<rparr>]\<rparr>)
                else Inl OutOfBounds))"

text \<open>
  \<^verbatim>\<open>calculate_vdisks\<close> reads \<^verbatim>\<open>disks[i].space\<close> and writes \<^verbatim>\<open>md_disks[i].nr_vdisks\<close>;
  its only caller passes \<^verbatim>\<open>md_disks\<close> for \<^verbatim>\<open>disks\<close>.
\<close>

definition calculate_vdisks :: "md_env \<Rightarrow> disk list \<Rightarrow> nat \<Rightarrow> uint64_t \<Rightarrow> md_error + disk list" where
  "calculate_vdisks env ds nr_disks tot =
     (let avg_size = tot div of_nat nr_disks in
      if nr_disks \<le> length ds
      then Inr (map (\<lambda>d. d\<lparr>disk_nr_vdisks := env_rintf_vdisks env (disk_space d) avg_size\<rparr>)
                  (take nr_disks ds) @ drop nr_disks ds)
      else Inl OutOfBounds)"

text \<open>
  \<^verbatim>\<open>remove_disk\<close>: the loop \<^verbatim>\<open>for (i = idx; i < md_nr_disks - 1; i++)\<close> that moves the
  later disks down by one slot, then the decrement. The last slot in use is not
  overwritten.
\<close>

function remove_disk_loop :: "disk list \<Rightarrow> nat \<Rightarrow> nat \<Rightarrow> md_error + disk list" where
  "remove_disk_loop ds i n =
     (if i + 1 < n
      then (if i + 1 < length ds
            then remove_disk_loop (ds[i := ds ! (i + 1)]) (i + 1) n
            else Inl OutOfBounds)
      else Inr ds)"
  by pat_completeness auto
termination
  by (relation "measure (\<lambda>(ds, i, n). n - i)") auto

declare remove_disk_loop.simps [simp del]

definition remove_disk :: "md_state \<Rightarrow> nat \<Rightarrow> md_error + md_state" where
  "remove_disk s idx =
     (case remove_disk_loop (md_disks s) idx (md_nr_disks s) of
        Inl e \<Rightarrow> Inl e
      | Inr ds \<Rightarrow> Inr (s\<lparr>md_disks := ds, md_nr_disks := md_nr_disks s - 1\<rparr>))"

text \<open>
  \<^verbatim>\<open>md_init_space\<close>. \<open>md_init_space_scan\<close> is the \<^verbatim>\<open>for\<close> loop at index \<open>i\<close> with the
  running \<^verbatim>\<open>total\<close>, followed by the rest of the function; \<^verbatim>\<open>goto reinit\<close> starts it
  again from the test of \<^verbatim>\<open>md_nr_disks\<close>.
\<close>

function md_init_space_scan ::
  "md_env \<Rightarrow> md_state \<Rightarrow> nat \<Rightarrow> uint64_t \<Rightarrow> md_error + uint64_t \<times> md_state" where
  "md_init_space_scan env s i tot =
     (if i < md_nr_disks s
      then (if i < length (md_disks s)
            then (let d = md_disks s ! i;
                      r = init_path_space env (md_fs s (disk_path d));
                      s1 = s\<lparr>md_disks := (md_disks s)[i := d\<lparr>disk_space := fst r\<rparr>],
                             md_fs := (md_fs s)(disk_path d := snd r)\<rparr>
                  in if fst r = 0
                     then (case remove_disk s1 i of
                             Inl e \<Rightarrow> Inl e
                           | Inr s2 \<Rightarrow>
                               if md_nr_disks s2 = 0 then Inr (0, s2)
                               else md_init_space_scan env s2 0 0)
                     else md_init_space_scan env s1 (Suc i) (tot + fst r))
            else Inl OutOfBounds)
      else (case calculate_vdisks env (md_disks s) (md_nr_disks s) tot of
              Inl e \<Rightarrow> Inl e
            | Inr ds \<Rightarrow>
                (case disks_to_vdisks ds (md_nr_disks s) (md_vds s) of
                   Inl e \<Rightarrow> Inl e
                 | Inr (n, vds) \<Rightarrow>
                     Inr (tot, s\<lparr>md_disks := ds, md_vds := vds, md_nr_vds := n,
                                    sys_enable_md := True\<rparr>))))"
  by pat_completeness auto
termination
  by (relation "measures [\<lambda>(env, s, i, tot). md_nr_disks s,
                          \<lambda>(env, s, i, tot). md_nr_disks s - i]")
    (auto simp: remove_disk_def split: sum.splits)

declare md_init_space_scan.simps [simp del]

definition md_init_space :: "md_env \<Rightarrow> md_state \<Rightarrow> md_error + uint64_t \<times> md_state" where
  "md_init_space env s =
     (if md_nr_disks s = 0 then Inr (0, s) else md_init_space_scan env s 0 0)"

definition disk_at :: "disk list \<Rightarrow> nat \<Rightarrow> md_error + disk" where
  "disk_at ds i = (if i < length ds then Inr (ds ! i) else Inl OutOfBounds)"

definition get_object_path :: "md_state \<Rightarrow> uint64_t \<Rightarrow> (md_error + string) option" where
  "get_object_path s oid =
     (if \<not> sys_enable_md s then Some (Inr (obj_path s))
      else (case oid_to_vdisk s oid of
              None \<Rightarrow> None
            | Some (Inl e) \<Rightarrow> Some (Inl e)
            | Some (Inr vd) \<Rightarrow>
                (case disk_at (md_disks s) (unat (vdisk_idx vd)) of
                   Inl e \<Rightarrow> Some (Inl e)
                 | Inr d \<Rightarrow> Some (Inr (disk_path d)))))"

definition kick_recover :: "md_state \<Rightarrow> md_state" where
  "kick_recover s = s\<lparr>started_recoveries := started_recoveries s + 1\<rparr>"

definition md_do_recover :: "md_env \<Rightarrow> md_state \<Rightarrow> md_work \<Rightarrow> md_error + md_state" where
  "md_do_recover env s mw =
     (case path_to_disk_idx s (mw_path mw) of
        Inl e \<Rightarrow> Inl e
      | Inr idx \<Rightarrow>
          if idx < 0 then Inr s
          else (case remove_disk s (nat idx) of
                  Inl e \<Rightarrow> Inl e
                | Inr s1 \<Rightarrow>
                    (case md_init_space env s1 of
                       Inl e \<Rightarrow> Inl e
                     | Inr (tot, s2) \<Rightarrow>
                         (let s3 = s2\<lparr>sys_disk_space := tot\<rparr> in
                          Inr (if md_nr_disks s3 > 0 then kick_recover s3 else s3)))))"

definition md_handle_eio :: "md_env \<Rightarrow> md_state \<Rightarrow> string \<Rightarrow> sd_res \<times> md_state" where
  "md_handle_eio env s fault_path =
     (if \<not> sys_enable_md s then (SD_RES_EIO, s)
      else if nr_online_disks s = 0 then (SD_RES_EIO, s)
      else (let mw = \<lparr>work_fn = None, work_done = Some MD_DO_RECOVER, mw_path = fault_path\<rparr>
            in (SD_RES_NETWORK_ERROR,
                s\<lparr>sys_md_wqueue :=
                     queue_work (env_pthread_ok env) (env_msec_time env) (env_nr_nodes env)
                       (sys_md_wqueue s) mw\<rparr>)))"

definition md_del_disk :: "md_state \<Rightarrow> string \<Rightarrow> md_error + md_state" where
  "md_del_disk s p =
     (case path_to_disk_idx s p of
        Inl e \<Rightarrow> Inl e
      | Inr idx \<Rightarrow> if idx < 0 then Inr s else remove_disk s (nat idx))"

text \<open>
  \<^verbatim>\<open>strtok(disks, ",")\<close> called until it returns \<^verbatim>\<open>NULL\<close>: the non-empty pieces
  between commas. \<open>cur\<close> is the piece being read, last character first.
\<close>

fun split_commas :: "string \<Rightarrow> string \<Rightarrow> string list" where
  "split_commas [] cur = (if cur = [] then [] else [rev cur])"
| "split_commas (c # cs) cur =
     (if c = CHR '',''
      then (if cur = [] then split_commas cs [] else rev cur # split_commas cs [])
      else split_commas cs (c # cur))"

fun plug_unplug_paths :: "md_state \<Rightarrow> string list \<Rightarrow> bool \<Rightarrow> md_error + md_state" where
  "plug_unplug_paths s [] plug = Inr s"
| "plug_unplug_paths s (p # ps) plug =
     (case (if plug then md_add_disk s p else md_del_disk s p) of
        Inl e \<Rightarrow> Inl e
      | Inr s1 \<Rightarrow> plug_unplug_paths s1 ps plug)"

text \<open>
  \<^verbatim>\<open>do_plug_unplug\<close>. When the argument holds no token the first \<^verbatim>\<open>strtok\<close> returns
  \<^verbatim>\<open>NULL\<close>, which the \<^verbatim>\<open>do\<close> loop hands to \<^verbatim>\<open>md_add_disk\<close> or \<^verbatim>\<open>md_del_disk\<close>.
\<close>

definition do_plug_unplug :: "md_env \<Rightarrow> md_state \<Rightarrow> string \<Rightarrow> bool \<Rightarrow> md_error + sd_res \<times> md_state" where
  "do_plug_unplug env s disks plug =
     (let old_nr = md_nr_disks s in
      case split_commas disks [] of
        [] \<Rightarrow> Inl NullPointer
      | p # ps \<Rightarrow>
          (case plug_unplug_paths s (p # ps) plug of
             Inl e \<Rightarrow> Inl e
           | Inr s1 \<Rightarrow>
               if old_nr = md_nr_disks s1 then Inr (SD_RES_UNKNOWN, s1)
               else (case md_init_space env s1 of
                       Inl e \<Rightarrow> Inl e
                     | Inr (tot, s2) \<Rightarrow>
                         (let s3 = s2\<lparr>sys_disk_space := tot\<rparr> in
                          Inr (SD_RES_SUCCESS,
                               if md_nr_disks s3 > 0 then kick_recover s3 else s3)))))"

definition md_plug_disks :: "md_env \<Rightarrow> md_state \<Rightarrow> string \<Rightarrow> md_error + sd_res \<times> md_state" where
  "md_plug_disks env s disks = do_plug_unplug env s disks True"

definition md_unplug_disks :: "md_env \<Rightarrow> md_state \<Rightarrow> string \<Rightarrow> md_error + sd_res \<times> md_state" where
  "md_unplug_disks env s disks = do_plug_unplug env s disks False"

subsection \<open>Vocabulary of the properties\<close>

text \<open>
  The disks in use, and what it means that the ring has been rebuilt from them and
  that a run of \<^verbatim>\<open>md_init_space\<close> from \<open>s\<close> has returned \<open>t\<close> in the state \<open>s'\<close>.
\<close>

definition online_disks :: "md_state \<Rightarrow> disk list" where
  "online_disks s = take (md_nr_disks s) (md_disks s)"

definition md_ring_rebuilt :: "md_state \<Rightarrow> bool" where
  "md_ring_rebuilt s \<longleftrightarrow>
     md_nr_vds s = length (disks_points (online_disks s) 0) \<and>
     take (md_nr_vds s) (md_vds s) = sort_key vdisk_id (disks_points (online_disks s) 0)"

definition md_init_post :: "md_state \<Rightarrow> uint64_t \<Rightarrow> md_state \<Rightarrow> bool" where
  "md_init_post s t s' \<longleftrightarrow>
     md_nr_disks s' \<le> md_nr_disks s \<and>
     subseq (map disk_path (online_disks s')) (map disk_path (online_disks s)) \<and>
     t = sum_list (map disk_space (online_disks s')) \<and>
     (0 < md_nr_disks s' \<longrightarrow> md_ring_rebuilt s' \<and> sys_enable_md s') \<and>
     (md_nr_disks s' = 0 \<longrightarrow>
        md_vds s' = md_vds s \<and> md_nr_vds s' = md_nr_vds s \<and> sys_enable_md s' = sys_enable_md s) \<and>
     sys_disk_space s' = sys_disk_space s \<and> sys_md_wqueue s' = sys_md_wqueue s \<and>
     obj_path s' = obj_path s \<and> started_recoveries s' = started_recoveries s \<and>
     length (md_disks s') = length (md_disks s) \<and> length (md_vds s') = length (md_vds s)"

subsection \<open>Example queues\<close>

definition wi_protected :: "unit worker_info" where
  "wi_protected = \<lparr>pending_list = [], finished_list = [], nr_pending = 0, nr_running = 1,
     nr_threads = 2, tm_end_of_protection = 5000, tc = WQ_DYNAMIC\<rparr>"

definition wi_idle :: "unit worker_info" where
  "wi_idle = \<lparr>pending_list = [], finished_list = [], nr_pending = 0, nr_running = 1,
     nr_threads = 2, tm_end_of_protection = 50, tc = WQ_DYNAMIC\<rparr>"

definition wi_busy :: "unit worker_info" where
  "wi_busy = \<lparr>pending_list = [], finished_list = [], nr_pending = 0, nr_running = 1,
     nr_threads = 1, tm_end_of_protection = 0, tc = WQ_UNLIMITED\<rparr>"

definition pthread_always :: "nat \<Rightarrow> bool" where
  "pthread_always k = True"

definition pthread_never :: "nat \<Rightarrow> bool" where
  "pthread_never k = False"

definition wi_pair :: "unit worker_info" where
  "wi_pair = \<lparr>pending_list = [], finished_list = [], nr_pending = 0, nr_running = 2,
     nr_threads = 2, tm_end_of_protection = 0, tc = WQ_UNLIMITED\<rparr>"

definition pthread_once :: "nat \<Rightarrow> bool" where
  "pthread_once k = (k = 0)"






subsection \<open>Example disks, file systems and states\<close>

text \<open>
  A path on which every call succeeds and that carries no \<^verbatim>\<open>user.md.size\<close> yet:
  an empty directory, and one that holds two objects and a temporary file.
\<close>

definition pf_fresh :: path_fs where
  "pf_fresh = \<lparr>xattr_enabled = True, mkdir_ok = True, stale_mkdir_ok = True,
     md_size_xattr = XattrNoData, setxattr_ok = True, statvfs_res = Some (4096, 1000),
     dirents = Some [''.'', ''..'', ''.stale'']\<rparr>"

definition pf_objects :: path_fs where
  "pf_objects = \<lparr>xattr_enabled = True, mkdir_ok = True, stale_mkdir_ok = True,
     md_size_xattr = XattrNoData, setxattr_ok = True, statvfs_res = Some (4096, 10),
     dirents = Some [''.'', ''..'', ''.stale'', ''0000000000000001'', ''00000000000000a2'',
                     ''00000000000000a3.tmp'']\<rparr>"

definition fs_fresh :: "string \<Rightarrow> path_fs" where
  "fs_fresh p = pf_fresh"

text \<open>
  An environment in which every object has 4 MiB, every disk gets two hash points,
  threads can be created, the clock reads 100 and the cluster has three nodes.
\<close>

definition env_small :: md_env where
  "env_small = \<lparr>env_rintf_vdisks = (\<lambda>space avg_size. 2),
     env_get_objsize = (\<lambda>oid. 4194304), env_pthread_ok = (\<lambda>k. True),
     env_msec_time = 100, env_nr_nodes = 3\<rparr>"

definition wq_md :: "md_work worker_info" where
  "wq_md = \<lparr>pending_list = [], finished_list = [], nr_pending = 0, nr_running = 1,
     nr_threads = 1, tm_end_of_protection = 0, tc = WQ_ORDERED\<rparr>"

definition disk_zero :: disk where
  "disk_zero = \<lparr>disk_path = [], disk_nr_vdisks = 0, disk_space = 0\<rparr>"

definition vdisk_zero :: vdisk where
  "vdisk_zero = \<lparr>vdisk_idx = 0, vdisk_id = 0\<rparr>"

text \<open>
  States with room for two disks (\<^verbatim>\<open>MD_MAX_DISK = 2\<close>, so 256 ring slots): the initial
  state, the state with \<^verbatim>\<open>/d0\<close> in use, and the state with \<^verbatim>\<open>/d0\<close> and \<^verbatim>\<open>/d1\<close> in use.
  The ring entries are the points \<^verbatim>\<open>disks_to_vdisks\<close> computes for these disks.
\<close>

definition md_empty :: md_state where
  "md_empty = \<lparr>md_disks = [disk_zero, disk_zero], md_vds = replicate 256 vdisk_zero,
     md_nr_disks = 0, md_nr_vds = 0, sys_enable_md = False, sys_disk_space = 0,
     sys_md_wqueue = wq_md, obj_path = ''/store/obj'', started_recoveries = 0,
     md_fs = fs_fresh\<rparr>"

definition md_one :: md_state where
  "md_one = \<lparr>md_disks = [\<lparr>disk_path = ''/d0'', disk_nr_vdisks = 2, disk_space = 4096000\<rparr>,
                           disk_zero],
     md_vds = [\<lparr>vdisk_idx = 0, vdisk_id = 0x3615fdbc7c8343a3\<rparr>,
               \<lparr>vdisk_idx = 0, vdisk_id = 0xd8231f13cb5862ca\<rparr>] @ replicate 254 vdisk_zero,
     md_nr_disks = 1, md_nr_vds = 2, sys_enable_md = True, sys_disk_space = 4096000,
     sys_md_wqueue = wq_md, obj_path = ''/store/obj'', started_recoveries = 1,
     md_fs = fs_fresh\<rparr>"

definition md_two :: md_state where
  "md_two = \<lparr>md_disks = [\<lparr>disk_path = ''/d0'', disk_nr_vdisks = 2, disk_space = 4096000\<rparr>,
                           \<lparr>disk_path = ''/d1'', disk_nr_vdisks = 2, disk_space = 4096000\<rparr>],
     md_vds = [\<lparr>vdisk_idx = 0, vdisk_id = 0x2800358a1684ba45\<rparr>,
               \<lparr>vdisk_idx = 1, vdisk_id = 0x3f59229f8364af45\<rparr>,
               \<lparr>vdisk_idx = 0, vdisk_id = 0xbc294d98197ab665\<rparr>,
               \<lparr>vdisk_idx = 1, vdisk_id = 0xd0531613c7291695\<rparr>] @ replicate 252 vdisk_zero,
     md_nr_disks = 2, md_nr_vds = 4, sys_enable_md = True, sys_disk_space = 8192000,
     sys_md_wqueue = wq_md, obj_path = ''/store/obj'', started_recoveries = 1,
     md_fs = fs_fresh\<rparr>"

definition mw_d0 :: md_work where
  "mw_d0 = \<lparr>work_fn = None, work_done = Some MD_DO_RECOVER, mw_path = ''/d0''\<rparr>"

text \<open>
  Two disks with one hash point each, in both orders, and a ring of one entry whose id
  is the hash of object 1.
\<close>

definition disk_a :: disk where
  "disk_a = \<lparr>disk_path = ''/d0'', disk_nr_vdisks = 1, disk_space = 4096000\<rparr>"

definition disk_b :: disk where
  "disk_b = \<lparr>disk_path = ''/d1'', disk_nr_vdisks = 1, disk_space = 4096000\<rparr>"

definition ring_of_oid_1 :: "vdisk list" where
  "ring_of_oid_1 = [\<lparr>vdisk_idx = 0, vdisk_id = 0x89cd31291d2aefa4\<rparr>]"

text \<open>
  The states in which \<^verbatim>\<open>md_init_space\<close> has built the ring for the two disks in the
  order \<^verbatim>\<open>/d0\<close>, \<^verbatim>\<open>/d1\<close> and in the order \<^verbatim>\<open>/d1\<close>, \<^verbatim>\<open>/d0\<close>.
\<close>

definition md_ab :: md_state where
  "md_ab = \<lparr>md_disks = [disk_a, disk_b],
     md_vds = [\<lparr>vdisk_idx = 0, vdisk_id = 0x2800358a1684ba45\<rparr>,
               \<lparr>vdisk_idx = 1, vdisk_id = 0xd0531613c7291695\<rparr>] @ replicate 254 vdisk_zero,
     md_nr_disks = 2, md_nr_vds = 2, sys_enable_md = True, sys_disk_space = 8192000,
     sys_md_wqueue = wq_md, obj_path = ''/store/obj'', started_recoveries = 1,
     md_fs = fs_fresh\<rparr>"

definition md_ba :: md_state where
  "md_ba = \<lparr>md_disks = [disk_b, disk_a],
     md_vds = [\<lparr>vdisk_idx = 0, vdisk_id = 0x2ef67e8a19facf7a\<rparr>,
               \<lparr>vdisk_idx = 1, vdisk_id = 0xd8231f13cb5862ca\<rparr>] @ replicate 254 vdisk_zero,
     md_nr_disks = 2, md_nr_vds = 2, sys_enable_md = True, sys_disk_space = 8192000,
     sys_md_wqueue = wq_md, obj_path = ''/store/obj'', started_recoveries = 1,
     md_fs = fs_fresh\<rparr>"

section \<open>Properties of the work queue\<close>

lemma create_worker_threads_ok:
  "(\<And>j. pthread_ok j) \<Longrightarrow> nr_threads wi \<le> n \<Longrightarrow>
   create_worker_threads pthread_ok k wi n = (0, wi\<lparr>nr_threads := n\<rparr>)"
proof (induction pthread_ok k wi n rule: create_worker_threads.induct)
  case (1 pthread_ok k wi n)
  show ?case
  proof (cases "nr_threads wi < n")
    case True
    then have le: "nr_threads wi + 1 \<le> n"
      by (simp add: inc_le)
    have "create_worker_threads pthread_ok k wi n =
          create_worker_threads pthread_ok (Suc k) (wi\<lparr>nr_threads := nr_threads wi + 1\<rparr>) n"
      using True "1.prems"(1) by (subst create_worker_threads.simps) simp
    also have "\<dots> = (0, (wi\<lparr>nr_threads := nr_threads wi + 1\<rparr>)\<lparr>nr_threads := n\<rparr>)"
      by (rule "1.IH") (use True "1.prems"(1) le in simp_all)
    finally show ?thesis by simp
  next
    case False
    with "1.prems"(2) have "nr_threads wi = n" by simp
    then show ?thesis
      by (subst create_worker_threads.simps) auto
  qed
qed

text \<open>
  C3 (as the code has it). The shrink decision of \<^verbatim>\<open>wq_need_shrink\<close> holds exactly when
  \<open>pending + running \<le> thread_count / 2\<close> and \<open>end_of_protection \<le> now\<close>. The
  end-of-protection timestamp is advanced to \<open>now + 1000\<close> when the first conjunct
  fails; when the first conjunct holds the queue is left as it is, also inside the
  protection period. When the decision holds, the worker decrements \<open>running\<close> and
  \<open>thread_count\<close> and exits.
\<close>

theorem wq_need_shrink_decision:
  "(fst (wq_need_shrink now wi) \<longleftrightarrow>
      nr_pending wi + nr_running wi \<le> nr_threads wi div 2 \<and> tm_end_of_protection wi \<le> now) \<and>
   snd (wq_need_shrink now wi) =
     (if nr_pending wi + nr_running wi \<le> nr_threads wi div 2 then wi
      else wi\<lparr>tm_end_of_protection := now + 1000\<rparr>) \<and>
   (fst (wq_need_shrink now wi) \<longrightarrow>
      worker_routine_step now wi =
        (WorkerExit, wi\<lparr>nr_running := nr_running wi - 1, nr_threads := nr_threads wi - 1\<rparr>))"
  by (simp add: wq_need_shrink_def worker_routine_step_def WQ_PROTECTION_PERIOD_def)

theorem wq_need_shrink_decision_witness:
  "fst (wq_need_shrink 100 wi_idle) \<and>
   snd (wq_need_shrink 100 wi_idle) = wi_idle \<and>
   worker_routine_step 100 wi_idle = (WorkerExit, wi_idle\<lparr>nr_running := 0, nr_threads := 1\<rparr>)"
proof -
  have fires: "fst (wq_need_shrink 100 wi_idle)"
    by (simp add: wq_need_shrink_def wi_idle_def)
  have vals: "nr_running wi_idle - 1 = 0" "nr_threads wi_idle - 1 = 1"
    "nr_pending wi_idle + nr_running wi_idle \<le> nr_threads wi_idle div 2"
    by (simp_all add: wi_idle_def)
  from wq_need_shrink_decision [of 100 wi_idle] fires vals show ?thesis
    by simp
qed

text \<open>
  The claim C3 as written fails inside the protection period: with two threads, one
  of them running, nothing pending, and the clock at 100 before the end of
  protection at 5000, the second conjunct fails, the worker does not exit, and the
  timestamp stays at 5000 instead of moving to 1100.
\<close>

theorem wq_need_shrink_protected_counterexample:
  "nr_pending wi_protected + nr_running wi_protected \<le> nr_threads wi_protected div 2 \<and>
   \<not> tm_end_of_protection wi_protected \<le> 100 \<and>
   \<not> fst (wq_need_shrink 100 wi_protected) \<and>
   tm_end_of_protection (snd (wq_need_shrink 100 wi_protected)) = 5000 \<and>
   tm_end_of_protection (snd (wq_need_shrink 100 wi_protected)) \<noteq> 100 + 1000"
  by (simp add: wq_need_shrink_def wi_protected_def)


lemma wq_get_roof_dynamic:
  assumes "0 \<le> sint nr_nodes" and "sint nr_nodes < 2 ^ 30"
  shows "uint (wq_get_roof nr_nodes WQ_DYNAMIC) = 2 * sint nr_nodes"
proof -
  have "sint (nr_nodes * 2) = signed_take_bit 31 (sint nr_nodes * 2)"
    by (simp add: sint_word_ariths)
  also have "\<dots> = sint nr_nodes * 2"
    by (rule signed_take_bit_int_eq_self) (use assms in simp_all)
  finally have s: "sint (nr_nodes * 2) = sint nr_nodes * 2" .
  have "uint (scast (nr_nodes * 2) :: 64 word) = take_bit 64 (sint (nr_nodes * 2))"
    by (simp only: scast_eq uint_word_of_int_eq) simp
  also have "\<dots> = sint nr_nodes * 2"
    unfolding s by (rule take_bit_int_eq_self) (use assms in simp_all)
  finally show ?thesis by simp
qed

lemma create_worker_threads_result:
  "create_worker_threads pthread_ok k wi n =
     (let m = (if nr_threads wi < n then unat (n - nr_threads wi) else 0);
          j = length (takeWhile pthread_ok [k..<k + m])
      in (if j = m then 0 else - 1, wi\<lparr>nr_threads := nr_threads wi + of_nat j\<rparr>))"
proof (induction pthread_ok k wi n rule: create_worker_threads.induct)
  case (1 pthread_ok k wi n)
  show ?case
  proof (cases "nr_threads wi < n")
    case False
    then show ?thesis
      by (subst create_worker_threads.simps) simp
  next
    case True
    then have pos: "0 < unat (n - nr_threads wi)"
      by (simp add: unat_gt_0)
    then have up: "[k..<k + unat (n - nr_threads wi)] =
                   k # [Suc k..<Suc k + (unat (n - nr_threads wi) - 1)]"
      by (simp add: upt_conv_Cons)
    show ?thesis
    proof (cases "pthread_ok k")
      case False
      with True pos up show ?thesis
        by (subst create_worker_threads.simps) simp
    next
      case ok: True
      have le: "nr_threads wi + 1 \<le> n"
        using True by (simp add: inc_le)
      have m': "(if nr_threads wi + 1 < n then unat (n - (nr_threads wi + 1)) else 0) =
                unat (n - nr_threads wi) - 1"
      proof (cases "nr_threads wi + 1 < n")
        case True
        have e: "n - (nr_threads wi + 1) = (n - nr_threads wi) - 1"
          by simp
        have "unat ((n - nr_threads wi) - 1) = unat (n - nr_threads wi) - 1"
          using pos by (simp add: unat_minus_one unat_gt_0)
        then have "unat (n - (nr_threads wi + 1)) = unat (n - nr_threads wi) - 1"
          by (simp only: e)
        then show ?thesis
          using True by (simp only: if_True)
      next
        case False
        with le have "n = nr_threads wi + 1" by simp
        then show ?thesis by simp
      qed
      define m where "m = unat (n - nr_threads wi)"
      define j' where "j' = length (takeWhile pthread_ok [Suc k..<Suc k + (m - 1)])"
      have step: "create_worker_threads pthread_ok k wi n =
            create_worker_threads pthread_ok (Suc k) (wi\<lparr>nr_threads := nr_threads wi + 1\<rparr>) n"
        using True ok by (subst create_worker_threads.simps) simp
      have ih: "create_worker_threads pthread_ok (Suc k) (wi\<lparr>nr_threads := nr_threads wi + 1\<rparr>) n =
        (let m = (if nr_threads (wi\<lparr>nr_threads := nr_threads wi + 1\<rparr>) < n
                  then unat (n - nr_threads (wi\<lparr>nr_threads := nr_threads wi + 1\<rparr>)) else 0);
             j = length (takeWhile pthread_ok [Suc k..<Suc k + m])
         in (if j = m then 0 else - 1,
             (wi\<lparr>nr_threads := nr_threads wi + 1\<rparr>)
               \<lparr>nr_threads := nr_threads (wi\<lparr>nr_threads := nr_threads wi + 1\<rparr>) + of_nat j\<rparr>))"
        by (rule "1.IH") (use True ok in simp_all)
      have sel: "nr_threads (wi\<lparr>nr_threads := nr_threads wi + 1\<rparr>) = nr_threads wi + 1"
        by simp
      have ih': "create_worker_threads pthread_ok (Suc k) (wi\<lparr>nr_threads := nr_threads wi + 1\<rparr>) n =
        (if j' = m - 1 then 0 else - 1, wi\<lparr>nr_threads := nr_threads wi + 1 + of_nat j'\<rparr>)"
        unfolding ih Let_def sel m' j'_def m_def by simp
      have j: "length (takeWhile pthread_ok [k..<k + m]) = Suc j'"
        using ok unfolding j'_def m_def by (simp only: up takeWhile.simps) simp
      have eq: "Suc j' = m \<longleftrightarrow> j' = m - 1"
        using pos unfolding m_def by auto
      have w: "nr_threads wi + 1 + of_nat j' = nr_threads wi + of_nat (Suc j')"
        by simp
      have "(let m = (if nr_threads wi < n then unat (n - nr_threads wi) else 0);
             j = length (takeWhile pthread_ok [k..<k + m])
         in (if j = m then 0 else - 1, wi\<lparr>nr_threads := nr_threads wi + of_nat j\<rparr>)) =
         (if Suc j' = m then 0 else - 1, wi\<lparr>nr_threads := nr_threads wi + of_nat (Suc j')\<rparr>)"
        using True unfolding Let_def by (simp only: if_True m_def [symmetric] j)
      also have "\<dots> = create_worker_threads pthread_ok k wi n"
        unfolding step ih' eq w ..
      finally show ?thesis ..
    qed
  qed
qed

lemma length_takeWhile_upt:
  assumes "j < m" and "\<And>i. i < j \<Longrightarrow> P i" and "\<not> P j"
  shows "length (takeWhile P [0..<m]) = j"
proof -
  have "[0..<m] = [0..<j] @ j # [Suc j..<m]"
    using assms(1) by (metis less_imp_le_nat upt_add_eq_append upt_conv_Cons zero_le plus_nat.add_0 le_add_diff_inverse)
  moreover have "takeWhile P ([0..<j] @ j # [Suc j..<m]) = [0..<j]"
    using assms(2,3) by (subst takeWhile_append2) simp_all
  ultimately have "takeWhile P [0..<m] = [0..<j]"
    by simp
  then show ?thesis by simp
qed

lemma length_takeWhile_upt_all:
  assumes "\<And>i. i < m \<Longrightarrow> P i"
  shows "length (takeWhile P [0..<m]) = m"
proof -
  have "takeWhile P [0..<m] = [0..<m]"
    using assms by (subst takeWhile_eq_all_conv) simp
  then show ?thesis by (simp only: length_upt)
qed

lemma wq_get_roof_dynamic_word:
  "uint (wq_get_roof nr_nodes WQ_DYNAMIC) = take_bit 64 (signed_take_bit 31 (2 * sint nr_nodes))"
proof -
  have "sint (nr_nodes * 2) = signed_take_bit 31 (sint nr_nodes * 2)"
    by (simp add: sint_word_ariths)
  moreover have "uint (scast (nr_nodes * 2) :: 64 word) = take_bit 64 (sint (nr_nodes * 2))"
    by (simp only: scast_eq uint_word_of_int_eq) simp
  ultimately show ?thesis
    by (simp add: mult.commute)
qed

lemma queue_work_threads:
  assumes f: "fst (wq_need_grow now nr_nodes (wi\<lparr>nr_pending := nr_pending wi + 1\<rparr>))"
  shows "nr_threads (queue_work pthread_ok now nr_nodes wi work) =
           nr_threads wi + of_nat (length (takeWhile pthread_ok
             [0..<(if nr_threads wi < nr_threads wi * 2 then unat (nr_threads wi) else 0)]))"
    and "tm_end_of_protection (queue_work pthread_ok now nr_nodes wi work) = now + 1000"
proof -
  let ?wi1 = "wi\<lparr>nr_pending := nr_pending wi + 1\<rparr>"
  let ?wi2 = "?wi1\<lparr>tm_end_of_protection := now + WQ_PROTECTION_PERIOD\<rparr>"
  from f have g: "wq_need_grow now nr_nodes ?wi1 = (True, ?wi2)"
    by (simp_all add: wq_need_grow_def split: if_splits)
  have d: "nr_threads wi * 2 - nr_threads wi = nr_threads wi"
    by simp
  show "nr_threads (queue_work pthread_ok now nr_nodes wi work) =
           nr_threads wi + of_nat (length (takeWhile pthread_ok
             [0..<(if nr_threads wi < nr_threads wi * 2 then unat (nr_threads wi) else 0)]))"
    by (simp add: queue_work_def g create_worker_threads_result Let_def d del: upt_Suc)
  show "tm_end_of_protection (queue_work pthread_ok now nr_nodes wi work) = now + 1000"
    by (simp add: queue_work_def g create_worker_threads_result Let_def WQ_PROTECTION_PERIOD_def)
qed

lemma queue_work_no_grow:
  assumes f: "\<not> fst (wq_need_grow now nr_nodes (wi\<lparr>nr_pending := nr_pending wi + 1\<rparr>))"
  shows "nr_threads (queue_work pthread_ok now nr_nodes wi work) = nr_threads wi"
    and "tm_end_of_protection (queue_work pthread_ok now nr_nodes wi work) = tm_end_of_protection wi"
proof -
  let ?wi1 = "wi\<lparr>nr_pending := nr_pending wi + 1\<rparr>"
  from f have g: "wq_need_grow now nr_nodes ?wi1 = (False, ?wi1)"
    by (simp_all add: wq_need_grow_def split: if_splits)
  show "nr_threads (queue_work pthread_ok now nr_nodes wi work) = nr_threads wi"
    by (simp add: queue_work_def g)
  show "tm_end_of_protection (queue_work pthread_ok now nr_nodes wi work) = tm_end_of_protection wi"
    by (simp add: queue_work_def g)
qed

text \<open>
  C4 (as the code has it). \<^verbatim>\<open>wq_need_grow\<close> fires exactly when
  \<open>thread_count < pending + running\<close> and \<open>thread_count * 2 \<le> roof\<close>, in \<^verbatim>\<open>size_t\<close>
  arithmetic. The roof is 1 for \<^verbatim>\<open>WQ_ORDERED\<close>; for \<^verbatim>\<open>WQ_DYNAMIC\<close> it is the \<^verbatim>\<open>int\<close>
  product \<open>nr_nodes * 2\<close> converted to 64 bits, which is twice the node count for a
  node count from 0 to \<open>2^30 - 1\<close>; for \<^verbatim>\<open>WQ_UNLIMITED\<close> it is \<^verbatim>\<open>SIZE_MAX\<close>, above every
  count. When it fires the end-of-protection timestamp becomes \<open>now + 1000\<close>, and
  otherwise the queue is left as it is. When it fires inside \<^verbatim>\<open>queue_work\<close>,
  \<^verbatim>\<open>create_worker_threads\<close> makes up to \<open>thread_count\<close> calls of \<^verbatim>\<open>pthread_create\<close>
  (none when doubling the count wraps) and the count rises by the number of calls
  that succeed before the first that fails. So if all of them succeed the count
  becomes \<open>min (thread_count * 2) roof\<close>, and if call number \<open>j\<close> is the first to fail
  the count stays at \<open>thread_count + j\<close>, the threads created so far. When it does
  not fire, \<^verbatim>\<open>queue_work\<close> changes neither the count nor the timestamp.
\<close>

theorem queue_work_grow:
  "(fst (wq_need_grow now nr_nodes wi) \<longleftrightarrow>
      nr_threads wi < nr_pending wi + nr_running wi \<and>
      nr_threads wi * 2 \<le> wq_get_roof nr_nodes (tc wi)) \<and>
   wq_get_roof nr_nodes WQ_ORDERED = 1 \<and>
   uint (wq_get_roof nr_nodes WQ_DYNAMIC) = take_bit 64 (signed_take_bit 31 (2 * sint nr_nodes)) \<and>
   (0 \<le> sint nr_nodes \<and> sint nr_nodes < 2 ^ 30 \<longrightarrow>
      uint (wq_get_roof nr_nodes WQ_DYNAMIC) = 2 * sint nr_nodes) \<and>
   (\<forall>n. n \<le> wq_get_roof nr_nodes WQ_UNLIMITED) \<and>
   snd (wq_need_grow now nr_nodes wi) =
     (if fst (wq_need_grow now nr_nodes wi) then wi\<lparr>tm_end_of_protection := now + 1000\<rparr> else wi) \<and>
   (fst (wq_need_grow now nr_nodes (wi\<lparr>nr_pending := nr_pending wi + 1\<rparr>)) \<longrightarrow>
      tm_end_of_protection (queue_work pthread_ok now nr_nodes wi work) = now + 1000 \<and>
      nr_threads (queue_work pthread_ok now nr_nodes wi work) =
        nr_threads wi + of_nat (length (takeWhile pthread_ok
          [0..<(if nr_threads wi < nr_threads wi * 2 then unat (nr_threads wi) else 0)]))) \<and>
   (fst (wq_need_grow now nr_nodes (wi\<lparr>nr_pending := nr_pending wi + 1\<rparr>)) \<and>
    nr_threads wi \<le> nr_threads wi * 2 \<and> (\<forall>k < unat (nr_threads wi). pthread_ok k) \<longrightarrow>
      nr_threads (queue_work pthread_ok now nr_nodes wi work) =
        min (nr_threads wi * 2) (wq_get_roof nr_nodes (tc wi))) \<and>
   (fst (wq_need_grow now nr_nodes (wi\<lparr>nr_pending := nr_pending wi + 1\<rparr>)) \<and>
    nr_threads wi \<le> nr_threads wi * 2 \<and>
    j < unat (nr_threads wi) \<and> (\<forall>k < j. pthread_ok k) \<and> \<not> pthread_ok j \<longrightarrow>
      nr_threads (queue_work pthread_ok now nr_nodes wi work) = nr_threads wi + of_nat j) \<and>
   (\<not> fst (wq_need_grow now nr_nodes (wi\<lparr>nr_pending := nr_pending wi + 1\<rparr>)) \<longrightarrow>
      nr_threads (queue_work pthread_ok now nr_nodes wi work) = nr_threads wi \<and>
      tm_end_of_protection (queue_work pthread_ok now nr_nodes wi work) = tm_end_of_protection wi)"
proof -
  let ?t = "nr_threads wi"
  let ?f = "fst (wq_need_grow now nr_nodes (wi\<lparr>nr_pending := nr_pending wi + 1\<rparr>))"
  let ?q = "queue_work pthread_ok now nr_nodes wi work"
  have grow: "fst (wq_need_grow now nr_nodes wi) \<longleftrightarrow>
      nr_threads wi < nr_pending wi + nr_running wi \<and>
      nr_threads wi * 2 \<le> wq_get_roof nr_nodes (tc wi)"
    by (simp add: wq_need_grow_def)
  have dynw: "uint (wq_get_roof nr_nodes WQ_DYNAMIC) =
      take_bit 64 (signed_take_bit 31 (2 * sint nr_nodes))"
    by (rule wq_get_roof_dynamic_word)
  have dyn: "0 \<le> sint nr_nodes \<and> sint nr_nodes < 2 ^ 30 \<longrightarrow>
      uint (wq_get_roof nr_nodes WQ_DYNAMIC) = 2 * sint nr_nodes"
    using wq_get_roof_dynamic by blast
  have unl: "\<forall>n. n \<le> wq_get_roof nr_nodes WQ_UNLIMITED"
    by (simp add: SIZE_MAX_def)
  have tm: "snd (wq_need_grow now nr_nodes wi) =
     (if fst (wq_need_grow now nr_nodes wi) then wi\<lparr>tm_end_of_protection := now + 1000\<rparr> else wi)"
    by (simp add: wq_need_grow_def WQ_PROTECTION_PERIOD_def)
  have gen: "?f \<longrightarrow>
      tm_end_of_protection ?q = now + 1000 \<and>
      nr_threads ?q = ?t + of_nat (length (takeWhile pthread_ok
          [0..<(if ?t < ?t * 2 then unat ?t else 0)]))"
    using queue_work_threads [of now nr_nodes wi pthread_ok work] by blast
  have ord: "wq_get_roof nr_nodes WQ_ORDERED = 1"
    by simp
  have all: "?f \<and> ?t \<le> ?t * 2 \<and> (\<forall>k < unat ?t. pthread_ok k) \<longrightarrow>
      nr_threads ?q = min (?t * 2) (wq_get_roof nr_nodes (tc wi))"
  proof (intro impI, elim conjE)
    assume f: ?f and nov: "?t \<le> ?t * 2" and ok: "\<forall>k < unat ?t. pthread_ok k"
    from f have roof: "?t * 2 \<le> wq_get_roof nr_nodes (tc wi)"
      by (simp add: wq_need_grow_def split: if_splits)
    have "nr_threads ?q = ?t * 2"
    proof (cases "?t < ?t * 2")
      case True
      have "length (takeWhile pthread_ok [0..<unat ?t]) = unat ?t"
        by (rule length_takeWhile_upt_all) (use ok in simp)
      with gen f True show ?thesis by simp
    next
      case False
      with nov have "?t * 2 = ?t" by simp
      with gen f False show ?thesis by simp
    qed
    with roof show "nr_threads ?q = min (?t * 2) (wq_get_roof nr_nodes (tc wi))"
      by (simp add: min_def)
  qed
  have part: "?f \<and> ?t \<le> ?t * 2 \<and> j < unat ?t \<and> (\<forall>k < j. pthread_ok k) \<and> \<not> pthread_ok j \<longrightarrow>
      nr_threads ?q = ?t + of_nat j"
  proof (intro impI, elim conjE)
    assume f: ?f and nov: "?t \<le> ?t * 2" and j: "j < unat ?t"
      and ok: "\<forall>k < j. pthread_ok k" and bad: "\<not> pthread_ok j"
    from j have "?t \<noteq> 0"
      by (auto simp: unat_eq_zero)
    with nov have lt: "?t < ?t * 2"
      by (metis (no_types) order_le_less add_cancel_right_right mult_2_right)
    have "length (takeWhile pthread_ok [0..<unat ?t]) = j"
      by (rule length_takeWhile_upt) (use j ok bad in simp_all)
    with gen f lt show "nr_threads ?q = ?t + of_nat j" by simp
  qed
  have nog: "\<not> ?f \<longrightarrow> nr_threads ?q = ?t \<and> tm_end_of_protection ?q = tm_end_of_protection wi"
    using queue_work_no_grow [of now nr_nodes wi pthread_ok work] by blast
  show ?thesis
    by (intro conjI) (fact grow ord dynw dyn unl tm gen all part nog)+
qed

theorem queue_work_grow_witness:
  "fst (wq_need_grow 100 3 (wi_busy\<lparr>nr_pending := nr_pending wi_busy + 1\<rparr>)) \<and>
   uint (wq_get_roof 3 WQ_DYNAMIC) = 6 \<and>
   nr_threads (queue_work pthread_always 100 3 wi_busy ()) = 2 \<and>
   tm_end_of_protection (queue_work pthread_always 100 3 wi_busy ()) = 1100 \<and>
   fst (wq_need_grow 100 3 (wi_pair\<lparr>nr_pending := nr_pending wi_pair + 1\<rparr>)) \<and>
   pthread_once 0 \<and> \<not> pthread_once 1 \<and>
   nr_threads (queue_work pthread_once 100 3 wi_pair ()) = 3 \<and>
   \<not> fst (wq_need_grow 100 3 (wi_protected\<lparr>nr_pending := nr_pending wi_protected + 1\<rparr>)) \<and>
   nr_threads (queue_work pthread_always 100 3 wi_protected ()) = 2"
proof -
  have f: "fst (wq_need_grow 100 3 (wi_busy\<lparr>nr_pending := nr_pending wi_busy + 1\<rparr>))"
    by (simp add: wq_need_grow_def wi_busy_def SIZE_MAX_def)
  have ok: "\<forall>k < unat (nr_threads wi_busy). pthread_always k"
    by (simp add: pthread_always_def)
  have nov: "nr_threads wi_busy \<le> nr_threads wi_busy * 2"
    by (simp add: wi_busy_def)
  have v: "min (nr_threads wi_busy * 2) (wq_get_roof 3 (tc wi_busy)) = 2"
    by (simp add: wi_busy_def SIZE_MAX_def)
  have n: "0 \<le> sint (3 :: c_int)" "sint (3 :: c_int) < 2 ^ 30" "2 * sint (3 :: c_int) = 6"
    by simp_all
  have f2: "fst (wq_need_grow 100 3 (wi_pair\<lparr>nr_pending := nr_pending wi_pair + 1\<rparr>))"
    by (simp add: wq_need_grow_def wi_pair_def SIZE_MAX_def)
  have nov2: "nr_threads wi_pair \<le> nr_threads wi_pair * 2"
    by (simp add: wi_pair_def)
  have once: "1 < unat (nr_threads wi_pair)" "\<forall>k < 1. pthread_once k" "\<not> pthread_once 1"
    "pthread_once 0" "nr_threads wi_pair + of_nat 1 = 3"
    by (simp_all add: pthread_once_def wi_pair_def)
  have nf: "\<not> fst (wq_need_grow 100 3 (wi_protected\<lparr>nr_pending := nr_pending wi_protected + 1\<rparr>))"
    "nr_threads wi_protected = 2"
    by (simp_all add: wq_need_grow_def wi_protected_def)
  note busy = queue_work_grow [of 100 3 wi_busy pthread_always "()" 0]
  from busy f ok nov have "nr_threads (queue_work pthread_always 100 3 wi_busy ()) =
      min (nr_threads wi_busy * 2) (wq_get_roof 3 (tc wi_busy))"
    by blast
  with v have a1: "nr_threads (queue_work pthread_always 100 3 wi_busy ()) = 2"
    by simp
  from busy f have "tm_end_of_protection (queue_work pthread_always 100 3 wi_busy ()) = 100 + 1000"
    by blast
  then have a2: "tm_end_of_protection (queue_work pthread_always 100 3 wi_busy ()) = 1100"
    by simp
  from busy n(1,2) have "uint (wq_get_roof 3 WQ_DYNAMIC) = 2 * sint (3 :: c_int)"
    by blast
  with n(3) have a3: "uint (wq_get_roof 3 WQ_DYNAMIC) = 6"
    by simp
  from queue_work_grow [of 100 3 wi_pair pthread_once "()" 1] f2 nov2 once(1,2,3)
  have "nr_threads (queue_work pthread_once 100 3 wi_pair ()) = nr_threads wi_pair + of_nat 1"
    by blast
  with once(5) have b: "nr_threads (queue_work pthread_once 100 3 wi_pair ()) = 3"
    by simp
  from queue_work_grow [of 100 3 wi_protected pthread_always "()" 0] nf(1)
  have "nr_threads (queue_work pthread_always 100 3 wi_protected ()) = nr_threads wi_protected"
    by blast
  with nf(2) have c: "nr_threads (queue_work pthread_always 100 3 wi_protected ()) = 2"
    by simp
  from a1 a2 a3 b c f f2 nf(1) once(3,4) show ?thesis
    by blast
qed

text \<open>
  The claim C4 as written fails when \<^verbatim>\<open>pthread_create\<close> fails: with one thread running
  on an unlimited queue, a submission makes the grow decision fire, the roof allows
  two threads, and the thread count stays at one.
\<close>

theorem queue_work_pthread_failure_counterexample:
  "fst (wq_need_grow 100 3 (wi_busy\<lparr>nr_pending := nr_pending wi_busy + 1\<rparr>)) \<and>
   min (nr_threads wi_busy * 2) (wq_get_roof 3 (tc wi_busy)) = 2 \<and>
   nr_threads (queue_work pthread_never 100 3 wi_busy ()) = 1"
  by (simp add: queue_work_def wq_need_grow_def wi_busy_def SIZE_MAX_def
      create_worker_threads.simps pthread_never_def)

subsection \<open>Completion\<close>

lemma create_worker_threads_pending_list:
  "pending_list (snd (create_worker_threads pthread_ok k wi n)) = pending_list wi"
proof (induction pthread_ok k wi n rule: create_worker_threads.induct)
  case (1 pthread_ok k wi n)
  then show ?case
    by (subst create_worker_threads.simps) simp
qed

lemma queue_work_pending_list:
  "pending_list (queue_work pthread_ok now nr_nodes wi work) = pending_list wi @ [work]"
  by (simp add: queue_work_def wq_need_grow_def Let_def create_worker_threads_pending_list)

lemma submitted_append [simp]: "submitted (xs @ ys) = submitted xs @ submitted ys"
  by (induction xs rule: submitted.induct) simp_all

lemma fn_returned_append [simp]: "fn_returned (xs @ ys) = fn_returned xs @ fn_returned ys"
  by (induction xs rule: fn_returned.induct) simp_all

lemma done_called_append [simp]: "done_called (xs @ ys) = done_called xs @ done_called ys"
  by (induction xs rule: done_called.induct) simp_all



lemma create_worker_threads_finished_list:
  "finished_list (snd (create_worker_threads pthread_ok k wi n)) = finished_list wi"
proof (induction pthread_ok k wi n rule: create_worker_threads.induct)
  case (1 pthread_ok k wi n)
  then show ?case
    by (subst create_worker_threads.simps) simp
qed

lemma queue_work_finished_list:
  "finished_list (queue_work pthread_ok now nr_nodes wi work) = finished_list wi"
  by (simp add: queue_work_def wq_need_grow_def Let_def create_worker_threads_finished_list)

lemma worker_routine_step_lists:
  assumes "worker_routine_step now wi = (act, wi')"
  shows "finished_list wi' = finished_list wi"
    and "pending_list wi = holds_new (worker_state_of act) @ pending_list wi'"
    and "holds_ran (worker_state_of act) = []"
  using assms
  by (auto simp: worker_routine_step_def wq_need_shrink_def Let_def
      split: if_splits list.splits)

lemma worker_routine_retest_lists:
  assumes "worker_routine_retest wi = (act, wi')"
  shows "finished_list wi' = finished_list wi"
    and "pending_list wi = holds_new (worker_state_of act) @ pending_list wi'"
    and "holds_ran (worker_state_of act) = []"
  using assms
  by (auto simp: worker_routine_retest_def Let_def split: if_splits list.splits)









text \<open>
  The completion signal is not lost: while an item is linked to the finished
  list, the eventfd is readable or a worker is about to write to it.
\<close>

lemma wq_step_signalled:
  assumes "wq_step a s = Some s'"
    and "finished_list (wq_info s) \<noteq> [] \<longrightarrow> 0 < wq_efd s \<or> WorkerSignals \<in> set (wq_threads s)"
  shows "finished_list (wq_info s') \<noteq> [] \<longrightarrow> 0 < wq_efd s' \<or> WorkerSignals \<in> set (wq_threads s')"
proof (cases a)
  case (QueueWork w now nr_nodes pthread_ok)
  with assms show ?thesis
    by (auto simp: Let_def queue_work_finished_list split: if_splits)
next
  case (WorkerStep t now)
  from assms(1) WorkerStep have t: "t < length (wq_threads s)"
    by (simp add: worker_step_def split: if_splits)
  have keep: "WorkerSignals \<in> set ((wq_threads s)[t := x])"
    if "WorkerSignals \<in> set (wq_threads s)" and "wq_threads s ! t \<noteq> WorkerSignals" for x
  proof -
    from that(1) obtain i where i: "i < length (wq_threads s)" "wq_threads s ! i = WorkerSignals"
      by (auto simp: in_set_conv_nth)
    with that(2) have "i \<noteq> t" by auto
    with i have "((wq_threads s)[t := x]) ! i = WorkerSignals" "i < length ((wq_threads s)[t := x])"
      by simp_all
    then show ?thesis
      by (metis nth_mem)
  qed
  show ?thesis
  proof (cases "wq_threads s ! t")
    case WorkerStarted
    with assms WorkerStep t keep [of WorkerLoop] show ?thesis
      by (auto simp: worker_step_def worker_routine_enter_def)
  next
    case WorkerLoop
    obtain act wi where r: "worker_routine_step now (wq_info s) = (act, wi)"
      by (cases "worker_routine_step now (wq_info s)")
    with assms WorkerStep t WorkerLoop keep [of "worker_state_of act"]
      worker_routine_step_lists(1) [OF r] show ?thesis
      by (auto simp: worker_step_def)
  next
    case WorkerSleeping
    obtain act wi where r: "worker_routine_retest (wq_info s) = (act, wi)"
      by (cases "worker_routine_retest (wq_info s)")
    with assms WorkerStep t WorkerSleeping keep [of "worker_state_of act"]
      worker_routine_retest_lists(1) [OF r] show ?thesis
      by (auto simp: worker_step_def)
  next
    case (WorkerHolds w)
    with assms WorkerStep t keep [of "WorkerRan w"] show ?thesis
      by (auto simp: worker_step_def)
  next
    case (WorkerRan w)
    with assms WorkerStep t show ?thesis
      by (auto simp: worker_step_def set_update_memI)
  next
    case WorkerSignals
    with assms WorkerStep t show ?thesis
      by (auto simp: worker_step_def eventfd_write_def)
  next
    case WorkerGone
    with assms WorkerStep t show ?thesis
      by (auto simp: worker_step_def)
  qed
next
  case CompletionEnter
  with assms show ?thesis
    by (auto simp: bs_thread_request_done_enter_def eventfd_read_def split: if_splits)
next
  case CompletionNext
  with assms show ?thesis
    by (auto simp: bs_thread_request_done_next_def split: list.splits)
qed

lemma wq_run_signalled:
  assumes "wq_run acts s0 = Some s"
    and "finished_list (wq_info s0) \<noteq> [] \<longrightarrow> 0 < wq_efd s0 \<or> WorkerSignals \<in> set (wq_threads s0)"
  shows "finished_list (wq_info s) \<noteq> [] \<longrightarrow> 0 < wq_efd s \<or> WorkerSignals \<in> set (wq_threads s)"
  using assms
proof (induction acts arbitrary: s0)
  case Nil
  then show ?case by simp
next
  case (Cons a acts)
  from Cons.prems(1) obtain s1 where st: "wq_step a s0 = Some s1"
    and run: "wq_run acts s1 = Some s"
    by (auto split: option.splits)
  from Cons.IH [OF run wq_step_signalled [OF st Cons.prems(2)]] show ?case .
qed



section \<open>Properties of the multi-disk layer\<close>

subsection \<open>The ring search\<close>

lemma c_div_2: "0 \<le> a \<Longrightarrow> c_div a 2 = a div 2"
  by (cases "a = 0") (simp_all add: c_div_def)

lemma oid_to_vdisk_loop_never_returns:
  assumes "oid_to_vdisk_loop vds start endi hid = Some y"
  shows "\<not> (0 \<le> start \<and> start \<le> endi \<and> endi < int (length vds) \<and>
            (\<forall>i. start \<le> i \<and> i \<le> endi \<longrightarrow> hid \<le> vdisk_id (vds ! nat i)))"
proof (rule oid_to_vdisk_loop.raw_induct
    [where P = "\<lambda>vds start endi hid y.
       \<not> (0 \<le> start \<and> start \<le> endi \<and> endi < int (length vds) \<and>
            (\<forall>i. start \<le> i \<and> i \<le> endi \<longrightarrow> hid \<le> vdisk_id (vds ! nat i)))", OF _ assms])
  fix loop :: "vdisk list \<Rightarrow> int \<Rightarrow> int \<Rightarrow> uint64_t \<Rightarrow> (md_error + vdisk) option"
  fix vds start endi hid y
  assume IH: "\<And>vds start endi hid y. loop vds start endi hid = Some y \<Longrightarrow>
      \<not> (0 \<le> start \<and> start \<le> endi \<and> endi < int (length vds) \<and>
            (\<forall>i. start \<le> i \<and> i \<le> endi \<longrightarrow> hid \<le> vdisk_id (vds ! nat i)))"
  assume body: "(let pos = c_div (endi - start) 2 + start
      in case vds_at vds pos of Inl e \<Rightarrow> Some (Inl e)
         | Inr vp \<Rightarrow>
             if vdisk_id vp < hid
             then case vds_at vds (pos + 1) of Inl e \<Rightarrow> Some (Inl e)
                  | Inr vn \<Rightarrow>
                      if hid \<le> vdisk_id vn then Some (Inr vn)
                      else loop vds pos endi hid
             else loop vds start pos hid) = Some y"
  show "\<not> (0 \<le> start \<and> start \<le> endi \<and> endi < int (length vds) \<and>
            (\<forall>i. start \<le> i \<and> i \<le> endi \<longrightarrow> hid \<le> vdisk_id (vds ! nat i)))"
  proof
    assume inv: "0 \<le> start \<and> start \<le> endi \<and> endi < int (length vds) \<and>
            (\<forall>i. start \<le> i \<and> i \<le> endi \<longrightarrow> hid \<le> vdisk_id (vds ! nat i))"
    define pos where "pos = c_div (endi - start) 2 + start"
    from inv have b: "0 \<le> endi - start" by simp
    then have "pos = (endi - start) div 2 + start"
      by (simp add: pos_def c_div_2)
    with b have pos: "start \<le> pos" "pos \<le> endi"
      by presburger+
    with inv have at: "vds_at vds pos = Inr (vds ! nat pos)"
      by (simp add: vds_at_def)
    from inv pos have ge: "\<not> vdisk_id (vds ! nat pos) < hid"
      by (simp add: not_less)
    from body have "loop vds start pos hid = Some y"
      using at ge by (simp add: pos_def [symmetric] Let_def)
    from IH [OF this] inv pos show False
      by auto
  qed
qed

lemma oid_to_vdisk_loop_returns:
  assumes "0 \<le> start" "start < endi" "endi < int (length vds)"
    and "vdisk_id (vds ! nat start) < hid" "hid \<le> vdisk_id (vds ! nat endi)"
  shows "\<exists>k. start < k \<and> k \<le> endi \<and> vdisk_id (vds ! nat (k - 1)) < hid \<and>
             hid \<le> vdisk_id (vds ! nat k) \<and>
             oid_to_vdisk_loop vds start endi hid = Some (Inr (vds ! nat k))"
  using assms
proof (induction "nat (endi - start)" arbitrary: start endi rule: less_induct)
  case less
  define pos where "pos = c_div (endi - start) 2 + start"
  from less.prems have "0 \<le> endi - start" by simp
  then have pos_eq: "pos = (endi - start) div 2 + start"
    by (simp add: pos_def c_div_2)
  with less.prems have pos: "start \<le> pos" "pos < endi"
    by presburger+
  with less.prems have at: "vds_at vds pos = Inr (vds ! nat pos)"
    and at1: "vds_at vds (pos + 1) = Inr (vds ! nat (pos + 1))"
    by (simp_all add: vds_at_def)
  show ?case
  proof (cases "vdisk_id (vds ! nat pos) < hid")
    case lt: True
    show ?thesis
    proof (cases "hid \<le> vdisk_id (vds ! nat (pos + 1))")
      case True
      have "oid_to_vdisk_loop vds start endi hid = Some (Inr (vds ! nat (pos + 1)))"
        by (subst oid_to_vdisk_loop.simps)
          (simp add: pos_def [symmetric] Let_def at at1 lt True)
      with lt True pos show ?thesis
        by (intro exI [of _ "pos + 1"]) simp
    next
      case False
      have eq: "oid_to_vdisk_loop vds start endi hid = oid_to_vdisk_loop vds pos endi hid"
        by (subst oid_to_vdisk_loop.simps)
          (simp add: pos_def [symmetric] Let_def at at1 lt False)
      from False less.prems(5) have "pos + 1 \<noteq> endi" by auto
      with pos have posp: "pos < endi" "start < pos \<or> start = pos" by auto
      have "start \<noteq> pos"
      proof
        assume "start = pos"
        then have "endi - start < 2"
          using pos_eq by presburger
        with less.prems(2) \<open>start = pos\<close> \<open>pos + 1 \<noteq> endi\<close> show False by simp
      qed
      with pos have sp: "start < pos" by simp
      have "\<exists>k. pos < k \<and> k \<le> endi \<and> vdisk_id (vds ! nat (k - 1)) < hid \<and>
             hid \<le> vdisk_id (vds ! nat k) \<and>
             oid_to_vdisk_loop vds pos endi hid = Some (Inr (vds ! nat k))"
        by (rule less.hyps) (use less.prems sp pos lt in simp_all)
      then obtain k where k: "pos < k" "k \<le> endi" "vdisk_id (vds ! nat (k - 1)) < hid"
        "hid \<le> vdisk_id (vds ! nat k)"
        "oid_to_vdisk_loop vds pos endi hid = Some (Inr (vds ! nat k))"
        by blast
      from k sp eq show ?thesis
        by (intro exI [of _ k]) simp
    qed
  next
    case False
    have eq: "oid_to_vdisk_loop vds start endi hid = oid_to_vdisk_loop vds start pos hid"
      by (subst oid_to_vdisk_loop.simps)
        (simp add: pos_def [symmetric] Let_def at False)
    from False less.prems(4) have "start \<noteq> pos" by auto
    with pos have sp: "start < pos" by simp
    have "\<exists>k. start < k \<and> k \<le> pos \<and> vdisk_id (vds ! nat (k - 1)) < hid \<and>
             hid \<le> vdisk_id (vds ! nat k) \<and>
             oid_to_vdisk_loop vds start pos hid = Some (Inr (vds ! nat k))"
      by (rule less.hyps) (use less.prems sp pos False in simp_all)
    then obtain k where k: "start < k" "k \<le> pos" "vdisk_id (vds ! nat (k - 1)) < hid"
      "hid \<le> vdisk_id (vds ! nat k)"
      "oid_to_vdisk_loop vds start pos hid = Some (Inr (vds ! nat k))"
      by blast
    from k pos eq show ?thesis
      by (intro exI [of _ k]) simp
  qed
qed

subsection \<open>Removing disks and rebuilding\<close>

lemma remove_disk_loop_Inr:
  "remove_disk_loop ds i n = Inr ds' \<Longrightarrow>
   length ds' = length ds \<and>
   (\<forall>j<length ds. ds' ! j = (if i \<le> j \<and> j + 1 < n then ds ! (j + 1) else ds ! j)) \<and>
   (i + 1 < n \<longrightarrow> n \<le> length ds)"
proof (induction ds i n arbitrary: ds' rule: remove_disk_loop.induct)
  case (1 ds i n)
  show ?case
  proof (cases "i + 1 < n")
    case True
    with "1.prems" have len: "i + 1 < length ds"
      and rec: "remove_disk_loop (ds[i := ds ! (i + 1)]) (i + 1) n = Inr ds'"
      by (simp_all add: remove_disk_loop.simps [of ds i n] split: if_splits)
    from "1.IH" [OF True len rec]
    have IH: "length ds' = length ds"
      "\<forall>j<length ds. ds' ! j =
         (if i + 1 \<le> j \<and> j + 1 < n then (ds[i := ds ! (i + 1)]) ! (j + 1)
          else (ds[i := ds ! (i + 1)]) ! j)"
      "i + 1 + 1 < n \<longrightarrow> n \<le> length ds"
      by simp_all
    have "ds' ! j = (if i \<le> j \<and> j + 1 < n then ds ! (j + 1) else ds ! j)"
      if "j < length ds" for j
      using IH(2) that True by (cases "j = i") (auto simp: nth_list_update)
    moreover have "n \<le> length ds"
      using IH(3) len True by (cases "i + 1 + 1 < n") auto
    ultimately show ?thesis
      using IH(1) by simp
  next
    case False
    with "1.prems" show ?thesis
      by (auto simp add: remove_disk_loop.simps [of ds i n])
  qed
qed

lemma remove_disk_Inr:
  assumes "remove_disk s idx = Inr s'" and "idx < md_nr_disks s" and "idx < length (md_disks s)"
  shows "md_nr_disks s' = md_nr_disks s - 1"
    and "length (md_disks s') = length (md_disks s)"
    and "md_nr_disks s \<le> length (md_disks s)"
    and "online_disks s' = take idx (md_disks s) @ drop (Suc idx) (online_disks s)"
    and "md_disks s' ! (md_nr_disks s - 1) = md_disks s ! (md_nr_disks s - 1)"
    and "md_vds s' = md_vds s" and "md_nr_vds s' = md_nr_vds s"
    and "sys_enable_md s' = sys_enable_md s" and "sys_disk_space s' = sys_disk_space s"
    and "sys_md_wqueue s' = sys_md_wqueue s" and "obj_path s' = obj_path s"
    and "started_recoveries s' = started_recoveries s" and "md_fs s' = md_fs s"
proof -
  from assms(1) obtain ds' where loop: "remove_disk_loop (md_disks s) idx (md_nr_disks s) = Inr ds'"
    and s': "s' = s\<lparr>md_disks := ds', md_nr_disks := md_nr_disks s - 1\<rparr>"
    by (auto simp: remove_disk_def split: sum.splits)
  note L = remove_disk_loop_Inr [OF loop]
  from s' show "md_nr_disks s' = md_nr_disks s - 1" "md_vds s' = md_vds s"
    "md_nr_vds s' = md_nr_vds s" "sys_enable_md s' = sys_enable_md s"
    "sys_disk_space s' = sys_disk_space s" "sys_md_wqueue s' = sys_md_wqueue s"
    "obj_path s' = obj_path s" "started_recoveries s' = started_recoveries s"
    "md_fs s' = md_fs s"
    by simp_all
  from L s' show "length (md_disks s') = length (md_disks s)" by simp
  from L assms(2,3) show n: "md_nr_disks s \<le> length (md_disks s)"
    by (cases "idx + 1 < md_nr_disks s") auto
  from L s' assms(2) n show "md_disks s' ! (md_nr_disks s - 1) = md_disks s ! (md_nr_disks s - 1)"
    by simp
  show "online_disks s' = take idx (md_disks s) @ drop (Suc idx) (online_disks s)"
  proof (rule nth_equalityI)
    show "length (online_disks s') = length (take idx (md_disks s) @ drop (Suc idx) (online_disks s))"
      using L s' assms(2,3) n by (simp add: online_disks_def)
  next
    fix j assume "j < length (online_disks s')"
    then have j: "j < md_nr_disks s - 1"
      using s' by (simp add: online_disks_def)
    with n have jl: "j < length (md_disks s)" by simp
    have "online_disks s' ! j = ds' ! j"
      using j s' by (simp add: online_disks_def)
    also have "\<dots> = (if idx \<le> j then md_disks s ! (j + 1) else md_disks s ! j)"
      using L jl j by auto
    also have "\<dots> = (take idx (md_disks s) @ drop (Suc idx) (online_disks s)) ! j"
      using j n assms(2,3) by (auto simp: nth_append online_disks_def)
    finally show "online_disks s' ! j = (take idx (md_disks s) @ drop (Suc idx) (online_disks s)) ! j" .
  qed
qed

lemma md_init_post_trans:
  assumes "md_init_post s1 t s'"
    and "md_nr_disks s1 \<le> md_nr_disks s"
    and "subseq (map disk_path (online_disks s1)) (map disk_path (online_disks s))"
    and "md_vds s1 = md_vds s" "md_nr_vds s1 = md_nr_vds s" "sys_enable_md s1 = sys_enable_md s"
    and "sys_disk_space s1 = sys_disk_space s" "sys_md_wqueue s1 = sys_md_wqueue s"
    and "obj_path s1 = obj_path s" "started_recoveries s1 = started_recoveries s"
    and "length (md_disks s1) = length (md_disks s)"
  shows "md_init_post s t s'"
proof -
  from assms(1,3) have "subseq (map disk_path (online_disks s')) (map disk_path (online_disks s))"
    unfolding md_init_post_def by (blast intro: subseq_order.order_trans)
  with assms show ?thesis
    unfolding md_init_post_def by simp
qed

lemma subseq_drop_Suc: "subseq (drop (Suc i) xs) (drop i xs)"
proof (cases "i < length xs")
  case True
  then have "drop i xs = xs ! i # drop (Suc i) xs"
    by (simp add: Cons_nth_drop_Suc)
  moreover have "subseq (drop (Suc i) xs) (xs ! i # drop (Suc i) xs)"
    by (rule list_emb_Cons) (rule subseq_order.refl)
  ultimately show ?thesis by simp
next
  case False
  then show ?thesis by simp
qed

lemma subseq_remove_nth:
  assumes "i < n"
  shows "subseq (take i xs @ drop (Suc i) (take n xs)) (take n xs)"
proof -
  have "take i (take n xs) @ drop i (take n xs) = take n xs"
    by (rule append_take_drop_id)
  moreover have "take i (take n xs) = take i xs"
    using assms by (simp add: min_def)
  ultimately have "take n xs = take i xs @ drop i (take n xs)"
    by simp
  moreover have "subseq (take i xs @ drop (Suc i) (take n xs)) (take i xs @ drop i (take n xs))"
    by (simp only: subseq_append' subseq_drop_Suc)
  ultimately show ?thesis by simp
qed

lemma calculate_vdisks_Inr:
  assumes "calculate_vdisks env ds n tot = Inr ds'"
  shows "n \<le> length ds" and "length ds' = length ds"
    and "map disk_path ds' = map disk_path ds" and "map disk_space ds' = map disk_space ds"
proof -
  from assms show n: "n \<le> length ds"
    by (simp add: calculate_vdisks_def Let_def split: if_splits)
  define f :: "disk \<Rightarrow> disk" where "f = (\<lambda>d. d\<lparr>disk_nr_vdisks :=
      env_rintf_vdisks env (disk_space d) (tot div of_nat n)\<rparr>)"
  from assms n have ds': "ds' = map f (take n ds) @ drop n ds"
    by (simp add: calculate_vdisks_def Let_def f_def)
  show "length ds' = length ds"
    using n by (simp add: ds')
  have "map disk_path ds' = map disk_path (take n ds) @ map disk_path (drop n ds)"
    by (simp add: ds' f_def comp_def)
  then show "map disk_path ds' = map disk_path ds"
    by (simp flip: map_append)
  have "map disk_space ds' = map disk_space (take n ds) @ map disk_space (drop n ds)"
    by (simp add: ds' f_def comp_def)
  then show "map disk_space ds' = map disk_space ds"
    by (simp flip: map_append)
qed

lemma disks_to_vdisks_Inr:
  assumes "disks_to_vdisks ds n vds = Inr (k, vds')"
  shows "k = length (disks_points (take n ds) 0)"
    and "take k vds' = sort_key vdisk_id (disks_points (take n ds) 0)"
    and "length vds' = length vds"
  using assms by (auto simp: disks_to_vdisks_def Let_def split: if_splits)

lemma md_init_space_scan_post:
  assumes "md_init_space_scan env s i tot = Inr (t, s')"
    and "i \<le> md_nr_disks s" and "0 < md_nr_disks s"
    and "tot = sum_list (map disk_space (take i (md_disks s)))"
  shows "md_init_post s t s'"
  using assms
proof (induction env s i tot rule: md_init_space_scan.induct)
  case (1 env s i tot)
  show ?case
  proof (cases "i < md_nr_disks s")
    case True
    show ?thesis
    proof (cases "i < length (md_disks s)")
      case False
      with True "1.prems"(1) show ?thesis
        by (simp add: md_init_space_scan.simps [of env s i tot])
    next
      case len: True
      define d where "d = md_disks s ! i"
      define r where "r = init_path_space env (md_fs s (disk_path d))"
      define s1 where "s1 = s\<lparr>md_disks := (md_disks s)[i := d\<lparr>disk_space := fst r\<rparr>],
                             md_fs := (md_fs s)(disk_path d := snd r)\<rparr>"
      have unfold_scan: "md_init_space_scan env s i tot =
          (if fst r = 0
           then (case remove_disk s1 i of
                   Inl e \<Rightarrow> Inl e
                 | Inr s2 \<Rightarrow>
                     if md_nr_disks s2 = 0 then Inr (0, s2)
                     else md_init_space_scan env s2 0 0)
           else md_init_space_scan env s1 (Suc i) (tot + fst r))"
        using True len unfolding d_def r_def s1_def
        by (subst md_init_space_scan.simps) (simp add: Let_def)
      have nr1: "md_nr_disks s1 = md_nr_disks s"
        and len1: "length (md_disks s1) = length (md_disks s)"
        and fr1: "md_vds s1 = md_vds s" "md_nr_vds s1 = md_nr_vds s"
          "sys_enable_md s1 = sys_enable_md s" "sys_disk_space s1 = sys_disk_space s"
          "sys_md_wqueue s1 = sys_md_wqueue s" "obj_path s1 = obj_path s"
          "started_recoveries s1 = started_recoveries s"
        by (simp_all add: s1_def)
      have "map disk_path (md_disks s1) = map disk_path (md_disks s)"
        using len by (simp add: s1_def d_def map_update list_update_same_conv)
      then have paths1: "map disk_path (online_disks s1) = map disk_path (online_disks s)"
        by (simp add: online_disks_def nr1 flip: take_map)
      show ?thesis
      proof (cases "fst r = 0")
        case zero: True
        show ?thesis
        proof (cases "remove_disk s1 i")
          case (Inl e)
          with zero "1.prems"(1) show ?thesis
            by (simp add: unfold_scan)
        next
          case (Inr s2)
          note R = remove_disk_Inr [OF Inr, unfolded nr1 len1, OF True len]
          have sub2: "subseq (map disk_path (online_disks s2)) (map disk_path (online_disks s))"
          proof -
            have "subseq (online_disks s2) (online_disks s1)"
              using subseq_remove_nth [OF True, of "md_disks s1"] R(4)
              by (simp add: online_disks_def nr1)
            then have "subseq (map disk_path (online_disks s2)) (map disk_path (online_disks s1))"
              by (rule subseq_map)
            with paths1 show ?thesis by simp
          qed
          show ?thesis
          proof (cases "md_nr_disks s2 = 0")
            case nz: True
            with zero Inr "1.prems"(1) have res: "t = 0" "s' = s2"
              by (simp_all add: unfold_scan)
            from nz have "online_disks s2 = []"
              by (simp add: online_disks_def)
            with res nz R fr1 len1 True show ?thesis
              by (simp add: md_init_post_def)
          next
            case pos: False
            with zero Inr "1.prems"(1)
            have rec: "md_init_space_scan env s2 0 0 = Inr (t, s')"
              by (simp add: unfold_scan)
            have "md_init_post s2 t s'"
              by (rule "1.IH"(1) [OF True len d_def r_def s1_def zero Inr pos rec])
                (use pos in simp_all)
            then show ?thesis
              by (rule md_init_post_trans) (use R fr1 len1 sub2 in simp_all)
          qed
        qed
      next
        case nonzero: False
        with "1.prems"(1)
        have rec: "md_init_space_scan env s1 (Suc i) (tot + fst r) = Inr (t, s')"
          by (simp add: unfold_scan)
        have "take (Suc i) (md_disks s1) = take i (md_disks s) @ [d\<lparr>disk_space := fst r\<rparr>]"
          using len by (simp add: s1_def take_Suc_conv_app_nth)
        then have tot1: "tot + fst r = sum_list (map disk_space (take (Suc i) (md_disks s1)))"
          using "1.prems"(4) by simp
        have "md_init_post s1 t s'"
          by (rule "1.IH"(2) [OF True len d_def r_def s1_def nonzero rec])
            (use True nr1 "1.prems"(3) tot1 in simp_all)
        then show ?thesis
          by (rule md_init_post_trans) (use nr1 paths1 fr1 len1 in simp_all)
      qed
    qed
  next
    case False
    with "1.prems"(2) have i: "i = md_nr_disks s" by simp
    from False "1.prems"(1) obtain ds n vds where
      calc: "calculate_vdisks env (md_disks s) (md_nr_disks s) tot = Inr ds"
      and ring: "disks_to_vdisks ds (md_nr_disks s) (md_vds s) = Inr (n, vds)"
      and res: "t = tot" "s' = s\<lparr>md_disks := ds, md_vds := vds, md_nr_vds := n,
                                    sys_enable_md := True\<rparr>"
      by (auto simp: md_init_space_scan.simps [of env s i tot] split: sum.splits)
    note C = calculate_vdisks_Inr [OF calc]
    note D = disks_to_vdisks_Inr [OF ring]
    have on: "online_disks s' = take (md_nr_disks s) ds"
      by (simp add: res online_disks_def)
    have "map disk_path (online_disks s') = take (md_nr_disks s) (map disk_path ds)"
      by (simp only: on take_map)
    also have "\<dots> = map disk_path (online_disks s)"
      by (simp only: C(3) online_disks_def take_map)
    finally have p: "map disk_path (online_disks s') = map disk_path (online_disks s)" .
    have "map disk_space (online_disks s') = take (md_nr_disks s) (map disk_space ds)"
      by (simp only: on take_map)
    also have "\<dots> = map disk_space (online_disks s)"
      by (simp only: C(4) online_disks_def take_map)
    finally have q: "map disk_space (online_disks s') = map disk_space (online_disks s)" .
    note p q
    moreover have "md_ring_rebuilt s'"
      using D by (simp add: md_ring_rebuilt_def on) (simp add: res)
    ultimately show ?thesis
      using C D "1.prems"(3,4) i
      by (simp add: md_init_post_def) (simp add: res online_disks_def)
  qed
qed

lemma md_init_space_post:
  assumes "md_init_space env s = Inr (t, s')"
  shows "md_init_post s t s'"
proof (cases "md_nr_disks s = 0")
  case True
  with assms have "t = 0" "s' = s"
    by (simp_all add: md_init_space_def)
  with True show ?thesis
    by (simp add: md_init_post_def online_disks_def)
next
  case False
  with assms have "md_init_space_scan env s 0 0 = Inr (t, s')"
    by (simp add: md_init_space_def)
  then show ?thesis
    by (rule md_init_space_scan_post) (use False in simp_all)
qed


subsection \<open>Initialising a path\<close>

text \<open>
  C2 (as the code has it). When every step succeeds and \<^verbatim>\<open>user.md.size\<close> is absent,
  \<^verbatim>\<open>init_path_space\<close> takes the free space \<^verbatim>\<open>f_frsize * f_bfree\<close> that \<^verbatim>\<open>statvfs\<close>
  reports (\<^verbatim>\<open>get_path_size\<close> is called with \<^verbatim>\<open>used = NULL\<close>, so the objects are not
  scanned); when this is not zero it writes it as the attribute and returns it. When a
  step fails (no extended attributes, \<^verbatim>\<open>.stale\<close> cannot be made, \<^verbatim>\<open>getxattr\<close> fails
  otherwise than with \<^verbatim>\<open>ENODATA\<close>, \<^verbatim>\<open>statvfs\<close> fails, the free space is zero, or
  \<^verbatim>\<open>setxattr\<close> fails) it returns zero and writes nothing.
\<close>

theorem init_path_space_free_space:
  "(xattr_enabled pf \<and> stale_mkdir_ok pf \<and> md_size_xattr pf = XattrNoData \<and>
    statvfs_res pf = Some (f_frsize, f_bfree) \<and> f_frsize * f_bfree \<noteq> 0 \<and> setxattr_ok pf \<longrightarrow>
      init_path_space env pf =
        (f_frsize * f_bfree, pf\<lparr>md_size_xattr := XattrValue (f_frsize * f_bfree)\<rparr>)) \<and>
   (\<not> xattr_enabled pf \<or> \<not> stale_mkdir_ok pf \<or> md_size_xattr pf = XattrError \<or>
    (md_size_xattr pf = XattrNoData \<and>
       (statvfs_res pf = None \<or> \<not> setxattr_ok pf \<or>
        (\<exists>a b. statvfs_res pf = Some (a, b) \<and> a * b = 0))) \<longrightarrow>
      init_path_space env pf = (0, pf))"
  by (auto simp add: init_path_space_def get_path_size_def Let_def
      split: xattr_result.splits option.splits)

theorem init_path_space_free_space_witness:
  "init_path_space env_small pf_objects =
     (40960, pf_objects\<lparr>md_size_xattr := XattrValue 40960\<rparr>) \<and>
   init_path_space env_small (pf_objects\<lparr>setxattr_ok := False\<rparr>) =
     (0, pf_objects\<lparr>setxattr_ok := False\<rparr>)"
proof -
  have a: "xattr_enabled pf_objects \<and> stale_mkdir_ok pf_objects \<and>
      md_size_xattr pf_objects = XattrNoData \<and> statvfs_res pf_objects = Some (4096, 10) \<and>
      (4096 :: uint64_t) * 10 \<noteq> 0 \<and> setxattr_ok pf_objects"
    by (simp add: pf_objects_def)
  have b: "md_size_xattr (pf_objects\<lparr>setxattr_ok := False\<rparr>) = XattrNoData \<and>
      \<not> setxattr_ok (pf_objects\<lparr>setxattr_ok := False\<rparr>)"
    by (simp add: pf_objects_def)
  from init_path_space_free_space [of pf_objects 4096 10 env_small] a
  have "init_path_space env_small pf_objects =
     (40960, pf_objects\<lparr>md_size_xattr := XattrValue 40960\<rparr>)"
    by simp
  moreover from init_path_space_free_space
    [of "pf_objects\<lparr>setxattr_ok := False\<rparr>" 4096 10 env_small] b
  have "init_path_space env_small (pf_objects\<lparr>setxattr_ok := False\<rparr>) =
     (0, pf_objects\<lparr>setxattr_ok := False\<rparr>)"
    by blast
  ultimately show ?thesis by simp
qed

text \<open>
  The claim C2 as written fails on a path that holds objects: the directory
  \<open>pf_objects\<close> holds two objects of 4 MiB (and a temporary file), so a scan sums
  8388608 bytes, as \<^verbatim>\<open>get_path_size\<close> with a counter shows; \<^verbatim>\<open>init_path_space\<close> returns and
  writes 40960, the 10 free blocks of 4096 bytes.
\<close>

theorem init_path_space_no_scan_counterexample:
  "xattr_enabled pf_objects \<and> stale_mkdir_ok pf_objects \<and>
   md_size_xattr pf_objects = XattrNoData \<and> setxattr_ok pf_objects \<and>
   get_path_size env_small pf_objects (Some 0) = (40960, Some 8388608) \<and>
   fst (init_path_space env_small pf_objects) = 40960 \<and>
   md_size_xattr (snd (init_path_space env_small pf_objects)) = XattrValue 40960"
  by (simp add: init_path_space_def get_path_size_def pf_objects_def
      for_each_object_in_path_def strtoull16_def isspace_c_def hex_val_def
      get_total_object_size_def env_small_def)

subsection \<open>Adding disks\<close>

lemma md_add_disk_full:
  assumes "md_nr_disks s = length (md_disks s)"
    and "path_to_disk_idx s p = Inr (- 1)" and "mkdir_ok (md_fs s p)"
  shows "md_add_disk s p = Inl OutOfBounds"
  using assms by (simp add: md_add_disk_def)

text \<open>
  C10 fails on the code. \<^verbatim>\<open>md_add_disk\<close> does not compare \<^verbatim>\<open>md_nr_disks\<close> with
  \<^verbatim>\<open>MD_MAX_DISK\<close>: with an array of two slots, plugging three new paths makes the third
  \<^verbatim>\<open>pstrcpy\<close> write to \<^verbatim>\<open>md_disks[2]\<close>, past the end of the array.
\<close>

theorem md_plug_disks_overflow:
  "md_plug_disks env_small md_empty ''/d0,/d1,/d2'' = Inl OutOfBounds"
  by (simp add: md_plug_disks_def do_plug_unplug_def md_add_disk_def path_to_disk_idx_def
      path_to_disk_idx_from.simps md_empty_def fs_fresh_def pf_fresh_def disk_zero_def)

subsection \<open>Reporting an I/O error\<close>

lemma md_handle_eio_queued:
  assumes "sys_enable_md s" and "md_nr_disks s \<noteq> 0"
  shows "fst (md_handle_eio env s p) = SD_RES_NETWORK_ERROR"
    and "pending_list (sys_md_wqueue (snd (md_handle_eio env s p))) =
           pending_list (sys_md_wqueue s) @
             [\<lparr>work_fn = None, work_done = Some MD_DO_RECOVER, mw_path = p\<rparr>]"
    and "\<exists>q. snd (md_handle_eio env s p) = s\<lparr>sys_md_wqueue := q\<rparr>"
  using assms
  by (auto simp add: md_handle_eio_def nr_online_disks_def Let_def queue_work_pending_list)

lemma get_object_path_frame:
  assumes "sys_enable_md s' = sys_enable_md s" "obj_path s' = obj_path s"
    "md_vds s' = md_vds s" "md_nr_vds s' = md_nr_vds s" "md_disks s' = md_disks s"
  shows "get_object_path s' oid = get_object_path s oid"
  by (simp only: get_object_path_def oid_to_vdisk_def assms)

text \<open>
  C5 (as the code has it). With multi-disk enabled and exactly one disk online,
  \<^verbatim>\<open>md_handle_eio\<close> for that disk's path queues the recovery work and returns
  \<^verbatim>\<open>SD_RES_NETWORK_ERROR\<close>. \<^verbatim>\<open>md_do_recover\<close> then takes the count of online disks to
  zero and the disk space to zero, without starting a recovery; the array \<^verbatim>\<open>md_disks\<close>
  (so the path in slot 0) and the ring are left as they were, and every lookup
  answers as before. From then on \<^verbatim>\<open>md_handle_eio\<close> returns \<^verbatim>\<open>SD_RES_EIO\<close>.
\<close>

theorem md_handle_eio_last_disk:
  "sys_enable_md s \<and> md_nr_disks s = 1 \<and> md_disks s \<noteq> [] \<and> disk_path (md_disks s ! 0) = p \<longrightarrow>
   (let s1 = snd (md_handle_eio env s p);
        mw = \<lparr>work_fn = None, work_done = Some MD_DO_RECOVER, mw_path = p\<rparr>;
        s2 = s1\<lparr>md_nr_disks := 0, sys_disk_space := 0\<rparr>
    in fst (md_handle_eio env s p) = SD_RES_NETWORK_ERROR \<and>
       pending_list (sys_md_wqueue s1) = pending_list (sys_md_wqueue s) @ [mw] \<and>
       md_do_recover env s1 mw = Inr s2 \<and>
       md_disks s2 = md_disks s \<and> md_vds s2 = md_vds s \<and> md_nr_vds s2 = md_nr_vds s \<and>
       started_recoveries s2 = started_recoveries s \<and>
       get_object_path s2 oid = get_object_path s oid \<and>
       md_handle_eio env s2 p = (SD_RES_EIO, s2))"
proof (intro impI)
  assume a: "sys_enable_md s \<and> md_nr_disks s = 1 \<and> md_disks s \<noteq> [] \<and>
    disk_path (md_disks s ! 0) = p"
  define mw where "mw = \<lparr>work_fn = None, work_done = Some MD_DO_RECOVER, mw_path = p\<rparr>"
  define s1 where "s1 = snd (md_handle_eio env s p)"
  define s2 where "s2 = s1\<lparr>md_nr_disks := 0, sys_disk_space := 0\<rparr>"
  from a have en: "sys_enable_md s" and nz: "md_nr_disks s \<noteq> 0" by simp_all
  note H = md_handle_eio_queued [OF en nz, of env p]
  from H(3) obtain q where s1: "s1 = s\<lparr>sys_md_wqueue := q\<rparr>"
    by (auto simp: s1_def)
  have idx: "path_to_disk_idx s1 p = Inr 0"
    using a by (simp add: s1 path_to_disk_idx_def path_to_disk_idx_from.simps [of _ _ 0])
  have rm: "remove_disk s1 0 = Inr (s1\<lparr>md_nr_disks := 0\<rparr>)"
    using a by (simp add: s1 remove_disk_def remove_disk_loop.simps [of _ 0])
  have rec: "md_do_recover env s1 mw = Inr s2"
    by (simp add: md_do_recover_def mw_def idx rm md_init_space_def s2_def)
  have eio: "md_handle_eio env s2 p = (SD_RES_EIO, s2)"
    by (simp add: md_handle_eio_def nr_online_disks_def s2_def)
  have gp: "get_object_path s2 oid = get_object_path s oid"
    by (rule get_object_path_frame) (simp_all add: s2_def s1)
  show "let s1 = snd (md_handle_eio env s p);
        mw = \<lparr>work_fn = None, work_done = Some MD_DO_RECOVER, mw_path = p\<rparr>;
        s2 = s1\<lparr>md_nr_disks := 0, sys_disk_space := 0\<rparr>
    in fst (md_handle_eio env s p) = SD_RES_NETWORK_ERROR \<and>
       pending_list (sys_md_wqueue s1) = pending_list (sys_md_wqueue s) @ [mw] \<and>
       md_do_recover env s1 mw = Inr s2 \<and>
       md_disks s2 = md_disks s \<and> md_vds s2 = md_vds s \<and> md_nr_vds s2 = md_nr_vds s \<and>
       started_recoveries s2 = started_recoveries s \<and>
       get_object_path s2 oid = get_object_path s oid \<and>
       md_handle_eio env s2 p = (SD_RES_EIO, s2)"
    unfolding Let_def s1_def [symmetric] mw_def [symmetric] s2_def [symmetric]
    using H(1,2) rec eio gp
    by (simp add: s1_def [symmetric] mw_def [symmetric]) (simp add: s2_def s1)
qed

theorem md_handle_eio_last_disk_witness:
  "fst (md_handle_eio env_small md_one ''/d0'') = SD_RES_NETWORK_ERROR \<and>
   md_do_recover env_small (snd (md_handle_eio env_small md_one ''/d0'')) mw_d0 =
     Inr ((snd (md_handle_eio env_small md_one ''/d0''))\<lparr>md_nr_disks := 0, sys_disk_space := 0\<rparr>) \<and>
   md_disks ((snd (md_handle_eio env_small md_one ''/d0''))\<lparr>md_nr_disks := 0, sys_disk_space := 0\<rparr>) ! 0 =
     \<lparr>disk_path = ''/d0'', disk_nr_vdisks = 2, disk_space = 4096000\<rparr> \<and>
   fst (md_handle_eio env_small
     ((snd (md_handle_eio env_small md_one ''/d0''))\<lparr>md_nr_disks := 0, sys_disk_space := 0\<rparr>) ''/d0'') =
     SD_RES_EIO"
proof -
  have a: "sys_enable_md md_one \<and> md_nr_disks md_one = 1 \<and> md_disks md_one \<noteq> [] \<and>
    disk_path (md_disks md_one ! 0) = ''/d0''"
    by (simp add: md_one_def)
  have d: "md_disks md_one ! 0 = \<lparr>disk_path = ''/d0'', disk_nr_vdisks = 2, disk_space = 4096000\<rparr>"
    by (simp add: md_one_def)
  from md_handle_eio_last_disk [of md_one "''/d0''" env_small 1] a d show ?thesis
    by (simp add: Let_def mw_d0_def)
qed

text \<open>
  The claim C5 as written fails: in the state \<open>md_one\<close>, with \<^verbatim>\<open>/d0\<close> the only disk
  online, \<^verbatim>\<open>md_handle_eio\<close> returns \<^verbatim>\<open>SD_RES_NETWORK_ERROR\<close>, not \<^verbatim>\<open>SD_RES_EIO\<close>.
\<close>

theorem md_handle_eio_last_disk_counterexample:
  "sys_enable_md md_one \<and> nr_online_disks md_one = 1 \<and>
   fst (md_handle_eio env_small md_one ''/d0'') = SD_RES_NETWORK_ERROR \<and>
   fst (md_handle_eio env_small md_one ''/d0'') \<noteq> SD_RES_EIO"
  by (simp add: md_handle_eio_def nr_online_disks_def md_one_def)

subsection \<open>Looking up an object\<close>

lemma oid_to_vdisk_from_min_id:
  assumes nr: "0 < nr" "nr \<le> length vds"
    and hid: "fnv_64a_buf (bytes_of_uint64 oid) FNV1A_64_INIT = vdisk_id (vds ! 0)"
    and least: "\<forall>i<nr. vdisk_id (vds ! 0) \<le> vdisk_id (vds ! i)"
  shows "oid_to_vdisk_from vds (int nr) oid = None"
proof -
  let ?h = "vdisk_id (vds ! 0)"
  have e: "vds_at vds (int nr - 1) = Inr (vds ! (nr - 1))" and s: "vds_at vds 0 = Inr (vds ! 0)"
    using nr by (auto simp add: vds_at_def nat_diff_distrib')
  from least nr have le: "?h \<le> vdisk_id (vds ! (nr - 1))"
    by simp
  have loop: "oid_to_vdisk_loop vds 0 (int nr - 1) ?h = None"
  proof (cases "oid_to_vdisk_loop vds 0 (int nr - 1) ?h")
    case (Some y)
    have "\<forall>i. 0 \<le> i \<and> i \<le> int nr - 1 \<longrightarrow> ?h \<le> vdisk_id (vds ! nat i)"
      using least by auto
    with oid_to_vdisk_loop_never_returns [OF Some] nr show ?thesis
      by auto
  qed simp
  show ?thesis
    using le by (simp add: oid_to_vdisk_from_def Let_def hid e s loop not_less)
qed

lemma fnv_oid_1: "fnv_64a_buf (bytes_of_uint64 1) FNV1A_64_INIT = 0x89cd31291d2aefa4"
  by (simp add: bytes_of_uint64_def FNV1A_64_INIT_def FNV_64_PRIME_def upt_rec)

lemma sorted_ring_nth:
  assumes "sorted (map vdisk_id (take nr vds))" and "i \<le> j" and "j < nr" and "nr \<le> length vds"
  shows "vdisk_id (vds ! i) \<le> vdisk_id (vds ! j)"
proof -
  have "map vdisk_id (take nr vds) ! i \<le> map vdisk_id (take nr vds) ! j"
    using assms by (intro sorted_nth_mono) simp_all
  with assms show ?thesis by simp
qed

lemma oid_to_vdisk_from_sorted:
  fixes oid :: uint64_t
  assumes srt: "sorted (map vdisk_id (take nr vds))" and nr: "0 < nr" "nr \<le> length vds"
  defines "hid \<equiv> fnv_64a_buf (bytes_of_uint64 oid) FNV1A_64_INIT"
  shows "(vdisk_id (vds ! (nr - 1)) < hid \<or> hid < vdisk_id (vds ! 0) \<longrightarrow>
            oid_to_vdisk_from vds (int nr) oid = Some (Inr (vds ! 0))) \<and>
         (vdisk_id (vds ! 0) < hid \<and> hid \<le> vdisk_id (vds ! (nr - 1)) \<longrightarrow>
            (\<exists>k<nr. oid_to_vdisk_from vds (int nr) oid = Some (Inr (vds ! k)) \<and>
                    hid \<le> vdisk_id (vds ! k) \<and> (\<forall>j<k. vdisk_id (vds ! j) < hid))) \<and>
         (hid = vdisk_id (vds ! 0) \<longrightarrow> oid_to_vdisk_from vds (int nr) oid = None)"
proof (intro conjI impI)
  have e: "vds_at vds (int nr - 1) = Inr (vds ! (nr - 1))" and s: "vds_at vds 0 = Inr (vds ! 0)"
    using nr by (auto simp add: vds_at_def nat_diff_distrib')
  {
    assume "vdisk_id (vds ! (nr - 1)) < hid \<or> hid < vdisk_id (vds ! 0)"
    then show "oid_to_vdisk_from vds (int nr) oid = Some (Inr (vds ! 0))"
      by (auto simp add: oid_to_vdisk_from_def Let_def e s hid_def)
  }
  {
    assume a: "vdisk_id (vds ! 0) < hid \<and> hid \<le> vdisk_id (vds ! (nr - 1))"
    then have "nr - 1 \<noteq> 0" by auto
    with nr have lt: "(0::int) < int nr - 1" by simp
    from oid_to_vdisk_loop_returns [of 0 "int nr - 1" vds hid] a lt nr
    obtain k where k: "0 < k" "k \<le> int nr - 1" "vdisk_id (vds ! nat (k - 1)) < hid"
      "hid \<le> vdisk_id (vds ! nat k)"
      "oid_to_vdisk_loop vds 0 (int nr - 1) hid = Some (Inr (vds ! nat k))"
      by (auto simp: nat_diff_distrib')
    have res: "oid_to_vdisk_from vds (int nr) oid = Some (Inr (vds ! nat k))"
      using a k(5) by (auto simp add: oid_to_vdisk_from_def Let_def e s hid_def [symmetric])
    have "vdisk_id (vds ! j) < hid" if "j < nat k" for j
    proof -
      from that k have "j \<le> nat (k - 1)" "nat (k - 1) < nr" by simp_all
      from sorted_ring_nth [OF srt this nr(2)] k(3) show ?thesis by simp
    qed
    with res k show "\<exists>k<nr. oid_to_vdisk_from vds (int nr) oid = Some (Inr (vds ! k)) \<and>
                    hid \<le> vdisk_id (vds ! k) \<and> (\<forall>j<k. vdisk_id (vds ! j) < hid)"
      by (intro exI [of _ "nat k"]) auto
  }
  {
    assume h: "hid = vdisk_id (vds ! 0)"
    have "\<forall>i<nr. vdisk_id (vds ! 0) \<le> vdisk_id (vds ! i)"
      using sorted_ring_nth [OF srt _ _ nr(2)] by simp
    with nr h show "oid_to_vdisk_from vds (int nr) oid = None"
      by (intro oid_to_vdisk_from_min_id) (simp_all add: hid_def)
  }
qed

text \<open>
  C1 fails on the code. On a ring sorted by id (lemma \<open>oid_to_vdisk_from_sorted\<close>) the
  search returns entry 0 when the hash lies outside the ring's ids, and the lowest entry
  with an id at or above the hash when the hash is above the lowest id; when the hash
  equals the lowest id the guard \<^verbatim>\<open>id < vds[start].id\<close> does not fire, no entry is below
  the hash, and the loop moves \<^verbatim>\<open>end\<close> down to \<^verbatim>\<open>start\<close> and stays there. For the ring of
  one entry whose id is the hash of object 1, the lookup of object 1 does not return.
\<close>

theorem oid_to_vdisk_from_min_id_never_returns:
  "fnv_64a_buf (bytes_of_uint64 1) FNV1A_64_INIT = vdisk_id (ring_of_oid_1 ! 0) \<and>
   oid_to_vdisk_from ring_of_oid_1 1 1 = None"
proof -
  have h: "fnv_64a_buf (bytes_of_uint64 1) FNV1A_64_INIT = vdisk_id (ring_of_oid_1 ! 0)"
    by (simp add: fnv_oid_1 ring_of_oid_1_def)
  have "oid_to_vdisk_from ring_of_oid_1 (int 1) 1 = None"
    by (rule oid_to_vdisk_from_min_id [OF _ _ h]) (simp_all add: ring_of_oid_1_def)
  with h show ?thesis by simp
qed

subsection \<open>Placement and the order of the disks\<close>

lemma disks_points_cong:
  "map (\<lambda>d. (disk_path d, disk_nr_vdisks d)) ds = map (\<lambda>d. (disk_path d, disk_nr_vdisks d)) ds' \<Longrightarrow>
   disks_points ds k = disks_points ds' k"
proof (induction ds arbitrary: ds' k)
  case Nil
  then show ?case by simp
next
  case (Cons d ds)
  then obtain d' ds'' where ds': "ds' = d' # ds''" by (cases ds') auto
  with Cons.prems have eq: "disk_path d = disk_path d'" "disk_nr_vdisks d = disk_nr_vdisks d'"
    and rest: "map (\<lambda>d. (disk_path d, disk_nr_vdisks d)) ds =
               map (\<lambda>d. (disk_path d, disk_nr_vdisks d)) ds''"
    by simp_all
  from rest have "length ds = length ds''"
    by (rule map_eq_imp_length_eq)
  with Cons.IH [OF rest] eq show ?case
    by (simp add: ds')
qed

lemma oid_to_vdisk_loop_prefix:
  assumes "oid_to_vdisk_loop vds start endi hid = Some y"
  shows "take n vds = take n vds' \<and> n \<le> length vds \<and> n \<le> length vds' \<and>
         0 \<le> start \<and> start \<le> endi \<and> endi < int n \<and> hid \<le> vdisk_id (vds ! nat endi) \<longrightarrow>
         oid_to_vdisk_loop vds' start endi hid = Some y"
proof (rule oid_to_vdisk_loop.raw_induct
    [where P = "\<lambda>vds start endi hid y.
       take n vds = take n vds' \<and> n \<le> length vds \<and> n \<le> length vds' \<and>
         0 \<le> start \<and> start \<le> endi \<and> endi < int n \<and> hid \<le> vdisk_id (vds ! nat endi) \<longrightarrow>
         oid_to_vdisk_loop vds' start endi hid = Some y", OF _ assms])
  fix loop :: "vdisk list \<Rightarrow> int \<Rightarrow> int \<Rightarrow> uint64_t \<Rightarrow> (md_error + vdisk) option"
  fix vds start endi hid y
  assume IH: "\<And>vds start endi hid y. loop vds start endi hid = Some y \<Longrightarrow>
       take n vds = take n vds' \<and> n \<le> length vds \<and> n \<le> length vds' \<and>
         0 \<le> start \<and> start \<le> endi \<and> endi < int n \<and> hid \<le> vdisk_id (vds ! nat endi) \<longrightarrow>
         oid_to_vdisk_loop vds' start endi hid = Some y"
  assume body: "(let pos = c_div (endi - start) 2 + start
      in case vds_at vds pos of Inl e \<Rightarrow> Some (Inl e)
         | Inr vp \<Rightarrow>
             if vdisk_id vp < hid
             then case vds_at vds (pos + 1) of Inl e \<Rightarrow> Some (Inl e)
                  | Inr vn \<Rightarrow>
                      if hid \<le> vdisk_id vn then Some (Inr vn)
                      else loop vds pos endi hid
             else loop vds start pos hid) = Some y"
  show "take n vds = take n vds' \<and> n \<le> length vds \<and> n \<le> length vds' \<and>
         0 \<le> start \<and> start \<le> endi \<and> endi < int n \<and> hid \<le> vdisk_id (vds ! nat endi) \<longrightarrow>
         oid_to_vdisk_loop vds' start endi hid = Some y"
  proof
    assume inv: "take n vds = take n vds' \<and> n \<le> length vds \<and> n \<le> length vds' \<and>
         0 \<le> start \<and> start \<le> endi \<and> endi < int n \<and> hid \<le> vdisk_id (vds ! nat endi)"
    then have tk: "take n vds = take n vds'" and n: "n \<le> length vds" "n \<le> length vds'"
      and b: "0 \<le> start" "start \<le> endi" "endi < int n"
      and top: "hid \<le> vdisk_id (vds ! nat endi)"
      by simp_all
    have same: "vds ! nat i = vds' ! nat i" if "0 \<le> i" "i < int n" for i
    proof -
      from that have "nat i < n" by simp
      then have "take n vds ! nat i = take n vds' ! nat i"
        by (simp only: tk)
      with \<open>nat i < n\<close> show ?thesis by simp
    qed
    define pos where "pos = c_div (endi - start) 2 + start"
    from b have "0 \<le> endi - start" by simp
    then have "pos = (endi - start) div 2 + start"
      by (simp add: pos_def c_div_2)
    with b have pos: "start \<le> pos" "pos \<le> endi"
      by presburger+
    with b n have at: "vds_at vds pos = Inr (vds ! nat pos)" "vds_at vds' pos = Inr (vds' ! nat pos)"
      by (simp_all add: vds_at_def)
    from pos b have sp: "vds ! nat pos = vds' ! nat pos"
      by (intro same) simp_all
    show "oid_to_vdisk_loop vds' start endi hid = Some y"
    proof (cases "vdisk_id (vds ! nat pos) < hid")
      case lt: True
      with top have "pos \<noteq> endi" by auto
      with pos have p1: "pos + 1 \<le> endi" by simp
      with b pos n have at1: "vds_at vds (pos + 1) = Inr (vds ! nat (pos + 1))"
        "vds_at vds' (pos + 1) = Inr (vds' ! nat (pos + 1))"
        by (simp_all add: vds_at_def)
      from p1 pos b have sp1: "vds ! nat (pos + 1) = vds' ! nat (pos + 1)"
        by (intro same) simp_all
      show ?thesis
      proof (cases "hid \<le> vdisk_id (vds ! nat (pos + 1))")
        case True
        with body lt at at1 have "y = Inr (vds ! nat (pos + 1))"
          by (simp add: pos_def [symmetric] Let_def)
        with True lt show ?thesis
          by (subst oid_to_vdisk_loop.simps)
            (simp add: pos_def [symmetric] Let_def at at1 sp [symmetric] sp1 [symmetric])
      next
        case False
        with body lt at at1 have "loop vds pos endi hid = Some y"
          by (simp add: pos_def [symmetric] Let_def)
        from IH [OF this] inv pos b have "oid_to_vdisk_loop vds' pos endi hid = Some y"
          by simp
        with False lt show ?thesis
          by (subst oid_to_vdisk_loop.simps)
            (simp add: pos_def [symmetric] Let_def at at1 sp [symmetric] sp1 [symmetric])
      qed
    next
      case False
      with body at have "loop vds start pos hid = Some y"
        by (simp add: pos_def [symmetric] Let_def)
      from IH [OF this] inv pos b False have "oid_to_vdisk_loop vds' start pos hid = Some y"
        by (simp add: not_less)
      with False show ?thesis
        by (subst oid_to_vdisk_loop.simps)
          (simp add: pos_def [symmetric] Let_def at sp [symmetric])
    qed
  qed
qed

lemma oid_to_vdisk_loop_index:
  assumes "oid_to_vdisk_loop vds start endi hid = Some y"
  shows "0 \<le> start \<and> start \<le> endi \<and> endi < int (length vds) \<and>
         hid \<le> vdisk_id (vds ! nat endi) \<longrightarrow>
         (\<exists>k. start \<le> k \<and> k \<le> endi \<and> y = Inr (vds ! nat k))"
proof (rule oid_to_vdisk_loop.raw_induct
    [where P = "\<lambda>vds start endi hid y.
       0 \<le> start \<and> start \<le> endi \<and> endi < int (length vds) \<and>
         hid \<le> vdisk_id (vds ! nat endi) \<longrightarrow>
         (\<exists>k. start \<le> k \<and> k \<le> endi \<and> y = Inr (vds ! nat k))", OF _ assms])
  fix loop :: "vdisk list \<Rightarrow> int \<Rightarrow> int \<Rightarrow> uint64_t \<Rightarrow> (md_error + vdisk) option"
  fix vds start endi hid y
  assume IH: "\<And>vds start endi hid y. loop vds start endi hid = Some y \<Longrightarrow>
       0 \<le> start \<and> start \<le> endi \<and> endi < int (length vds) \<and>
         hid \<le> vdisk_id (vds ! nat endi) \<longrightarrow>
         (\<exists>k. start \<le> k \<and> k \<le> endi \<and> y = Inr (vds ! nat k))"
  assume body: "(let pos = c_div (endi - start) 2 + start
      in case vds_at vds pos of Inl e \<Rightarrow> Some (Inl e)
         | Inr vp \<Rightarrow>
             if vdisk_id vp < hid
             then case vds_at vds (pos + 1) of Inl e \<Rightarrow> Some (Inl e)
                  | Inr vn \<Rightarrow>
                      if hid \<le> vdisk_id vn then Some (Inr vn)
                      else loop vds pos endi hid
             else loop vds start pos hid) = Some y"
  show "0 \<le> start \<and> start \<le> endi \<and> endi < int (length vds) \<and>
         hid \<le> vdisk_id (vds ! nat endi) \<longrightarrow>
         (\<exists>k. start \<le> k \<and> k \<le> endi \<and> y = Inr (vds ! nat k))"
  proof
    assume inv: "0 \<le> start \<and> start \<le> endi \<and> endi < int (length vds) \<and>
         hid \<le> vdisk_id (vds ! nat endi)"
    then have b: "0 \<le> start" "start \<le> endi" "endi < int (length vds)"
      and top: "hid \<le> vdisk_id (vds ! nat endi)"
      by simp_all
    define pos where "pos = c_div (endi - start) 2 + start"
    from b have "0 \<le> endi - start" by simp
    then have "pos = (endi - start) div 2 + start"
      by (simp add: pos_def c_div_2)
    with b have pos: "start \<le> pos" "pos \<le> endi"
      by presburger+
    with b have at: "vds_at vds pos = Inr (vds ! nat pos)"
      by (simp add: vds_at_def)
    show "\<exists>k. start \<le> k \<and> k \<le> endi \<and> y = Inr (vds ! nat k)"
    proof (cases "vdisk_id (vds ! nat pos) < hid")
      case lt: True
      with top have "pos \<noteq> endi" by auto
      with pos have p1: "pos + 1 \<le> endi" by simp
      with b pos have at1: "vds_at vds (pos + 1) = Inr (vds ! nat (pos + 1))"
        by (simp add: vds_at_def)
      show ?thesis
      proof (cases "hid \<le> vdisk_id (vds ! nat (pos + 1))")
        case True
        with body lt at at1 have "y = Inr (vds ! nat (pos + 1))"
          by (simp add: pos_def [symmetric] Let_def)
        with p1 pos show ?thesis
          by (intro exI [of _ "pos + 1"]) simp
      next
        case False
        with body lt at at1 have "loop vds pos endi hid = Some y"
          by (simp add: pos_def [symmetric] Let_def)
        from IH [OF this] inv pos b obtain k where "pos \<le> k" "k \<le> endi" "y = Inr (vds ! nat k)"
          by auto
        with pos show ?thesis
          by (intro exI [of _ k]) simp
      qed
    next
      case False
      with body at have "loop vds start pos hid = Some y"
        by (simp add: pos_def [symmetric] Let_def)
      from IH [OF this] inv pos b False
      obtain k where "start \<le> k" "k \<le> pos" "y = Inr (vds ! nat k)"
        by (auto simp: not_less)
      with pos show ?thesis
        by (intro exI [of _ k]) simp
    qed
  qed
qed

lemma oid_to_vdisk_from_prefix_Some:
  assumes "oid_to_vdisk_from vds (int n) oid = Some y"
    and tk: "take n vds = take n vds'" and n: "n \<le> length vds" "n \<le> length vds'"
  shows "oid_to_vdisk_from vds' (int n) oid = Some y"
proof (cases "n = 0")
  case True
  with assms(1) show ?thesis
    by (auto simp add: oid_to_vdisk_from_def vds_at_def Let_def)
next
  case False
  define hid where "hid = fnv_64a_buf (bytes_of_uint64 oid) FNV1A_64_INIT"
  have same: "vds ! i = vds' ! i" if "i < n" for i
  proof -
    from that have "take n vds ! i = take n vds' ! i" by (simp only: tk)
    with that show ?thesis by simp
  qed
  from False have s0: "vds' ! 0 = vds ! 0" and sn: "vds' ! (n - 1) = vds ! (n - 1)"
    by (simp_all add: same)
  from False n have e: "vds_at vds (int n - 1) = Inr (vds ! (n - 1))"
    and s: "vds_at vds 0 = Inr (vds ! 0)"
    by (auto simp add: vds_at_def nat_diff_distrib')
  from False n have "vds_at vds' (int n - 1) = Inr (vds' ! (n - 1))"
    "vds_at vds' 0 = Inr (vds' ! 0)"
    by (auto simp add: vds_at_def nat_diff_distrib')
  then have e': "vds_at vds' (int n - 1) = Inr (vds ! (n - 1))"
    and s': "vds_at vds' 0 = Inr (vds ! 0)"
    by (simp_all only: s0 sn)
  show ?thesis
  proof (cases "vdisk_id (vds ! (n - 1)) < hid \<or> hid < vdisk_id (vds ! 0)")
    case True
    with assms(1) have "y = Inr (vds ! 0)"
      by (auto simp add: oid_to_vdisk_from_def Let_def e s hid_def [symmetric])
    with True show ?thesis
      by (auto simp add: oid_to_vdisk_from_def Let_def e' s' hid_def [symmetric])
  next
    case no: False
    with assms(1) have loop: "oid_to_vdisk_loop vds 0 (int n - 1) hid = Some y"
      by (simp add: oid_to_vdisk_from_def Let_def e s hid_def [symmetric])
    from no False have top: "hid \<le> vdisk_id (vds ! nat (int n - 1))"
      by (simp add: not_less nat_diff_distrib')
    from oid_to_vdisk_loop_prefix [OF loop, of n vds'] tk n False top
    have "oid_to_vdisk_loop vds' 0 (int n - 1) hid = Some y"
      by simp
    with no show ?thesis
      by (simp add: oid_to_vdisk_from_def Let_def e' s' hid_def [symmetric])
  qed
qed

lemma oid_to_vdisk_from_prefix:
  assumes "take n vds = take n vds'" and "n \<le> length vds" "n \<le> length vds'"
  shows "oid_to_vdisk_from vds (int n) oid = oid_to_vdisk_from vds' (int n) oid"
proof (cases "oid_to_vdisk_from vds (int n) oid")
  case None
  show ?thesis
  proof (cases "oid_to_vdisk_from vds' (int n) oid")
    case (Some y)
    from oid_to_vdisk_from_prefix_Some [OF Some assms(1) [symmetric] assms(3,2)] None
    show ?thesis by simp
  qed (simp add: None)
next
  case (Some y)
  from oid_to_vdisk_from_prefix_Some [OF Some assms] Some show ?thesis by simp
qed

lemma oid_to_vdisk_from_index:
  assumes "oid_to_vdisk_from vds (int n) oid = Some (Inr vd)" and n: "n \<le> length vds"
  shows "\<exists>k<n. vd = vds ! k"
proof (cases "n = 0")
  case True
  with assms(1) show ?thesis
    by (simp add: oid_to_vdisk_from_def vds_at_def Let_def)
next
  case False
  define hid where "hid = fnv_64a_buf (bytes_of_uint64 oid) FNV1A_64_INIT"
  from False n have e: "vds_at vds (int n - 1) = Inr (vds ! (n - 1))"
    and s: "vds_at vds 0 = Inr (vds ! 0)"
    by (auto simp add: vds_at_def nat_diff_distrib')
  show ?thesis
  proof (cases "vdisk_id (vds ! (n - 1)) < hid \<or> hid < vdisk_id (vds ! 0)")
    case True
    with assms(1) have "vd = vds ! 0"
      by (auto simp add: oid_to_vdisk_from_def Let_def e s hid_def [symmetric])
    with False show ?thesis by (intro exI [of _ 0]) simp
  next
    case no: False
    with assms(1) have loop: "oid_to_vdisk_loop vds 0 (int n - 1) hid = Some (Inr vd)"
      by (simp add: oid_to_vdisk_from_def Let_def e s hid_def [symmetric])
    from no False have top: "hid \<le> vdisk_id (vds ! nat (int n - 1))"
      by (simp add: not_less nat_diff_distrib')
    from oid_to_vdisk_loop_index [OF loop] n False top
    obtain k where "0 \<le> k" "k \<le> int n - 1" "vd = vds ! nat k"
      by auto
    then show ?thesis
      by (intro exI [of _ "nat k"]) auto
  qed
qed

lemma disk_points_idx:
  "v \<in> set (disk_points nmds p ix n hval) \<Longrightarrow> vdisk_idx v = ix"
  by (induction n arbitrary: hval) (auto simp: Let_def)

lemma disks_points_idx:
  "v \<in> set (disks_points ds k) \<Longrightarrow> \<exists>j<length ds. vdisk_idx v = of_nat (k + j)"
proof (induction ds arbitrary: k)
  case Nil
  then show ?case by simp
next
  case (Cons d ds)
  from Cons.prems consider
    "v \<in> set (disk_points (of_nat (length ds)) (disk_path d) (of_nat k)
        (unat (disk_nr_vdisks d)) FNV1A_64_INIT)"
    | "v \<in> set (disks_points ds (Suc k))"
    by auto
  then show ?case
  proof cases
    case 1
    then have "vdisk_idx v = of_nat k" by (rule disk_points_idx)
    then show ?thesis by (intro exI [of _ 0]) simp
  next
    case 2
    from Cons.IH [OF this] obtain j where "j < length ds" "vdisk_idx v = of_nat (Suc k + j)"
      by auto
    then show ?thesis by (intro exI [of _ "Suc j"]) simp
  qed
qed

lemma points_ab: "disks_points [disk_a, disk_b] 0 =
    [\<lparr>vdisk_idx = 0, vdisk_id = 0x2800358a1684ba45\<rparr>,
     \<lparr>vdisk_idx = 1, vdisk_id = 0xd0531613c7291695\<rparr>]"
  by (simp add: disk_a_def disk_b_def bytes_of_int_def bytes_of_string_def FNV1A_64_INIT_def
      FNV_64_PRIME_def upt_rec Let_def)

lemma points_ba: "disks_points [disk_b, disk_a] 0 =
    [\<lparr>vdisk_idx = 0, vdisk_id = 0x2ef67e8a19facf7a\<rparr>,
     \<lparr>vdisk_idx = 1, vdisk_id = 0xd8231f13cb5862ca\<rparr>]"
  by (simp add: disk_a_def disk_b_def bytes_of_int_def bytes_of_string_def FNV1A_64_INIT_def
      FNV_64_PRIME_def upt_rec Let_def)

lemma rebuilt_ab: "md_ring_rebuilt md_ab"
proof -
  have "online_disks md_ab = [disk_a, disk_b]"
    by (simp add: online_disks_def md_ab_def)
  then show ?thesis
    by (simp add: md_ring_rebuilt_def points_ab del: disks_points.simps) (simp add: md_ab_def)
qed

lemma rebuilt_ba: "md_ring_rebuilt md_ba"
proof -
  have "online_disks md_ba = [disk_b, disk_a]"
    by (simp add: online_disks_def md_ba_def)
  then show ?thesis
    by (simp add: md_ring_rebuilt_def points_ba del: disks_points.simps) (simp add: md_ba_def)
qed

lemma path_ab: "get_object_path md_ab 1 = Some (Inr ''/d1'')"
  by (simp add: get_object_path_def oid_to_vdisk_def oid_to_vdisk_from_def fnv_oid_1 md_ab_def
      vds_at_def oid_to_vdisk_loop.simps [of _ 0 1] c_div_def disk_at_def disk_a_def disk_b_def)

lemma path_ba: "get_object_path md_ba 1 = Some (Inr ''/d0'')"
  by (simp add: get_object_path_def oid_to_vdisk_def oid_to_vdisk_from_def fnv_oid_1 md_ba_def
      vds_at_def oid_to_vdisk_loop.simps [of _ 0 1] c_div_def disk_at_def disk_a_def disk_b_def)

text \<open>
  C8 (as the code has it). In two states whose rings have been built from the disks in
  use, and whose disks in use have the same paths and the same vdisk counts in the same
  order, \<^verbatim>\<open>get_object_path\<close> gives the same answer for every object identifier: the free
  space of the disks, the unused slots of the arrays and the rest of the state do not
  matter.
\<close>

theorem get_object_path_same_disks:
  assumes en: "sys_enable_md s" "sys_enable_md s'"
    and rb: "md_ring_rebuilt s" "md_ring_rebuilt s'"
    and wf: "md_nr_disks s \<le> length (md_disks s)" "md_nr_disks s' \<le> length (md_disks s')"
      "md_nr_vds s \<le> length (md_vds s)" "md_nr_vds s' \<le> length (md_vds s')"
    and same: "map (\<lambda>d. (disk_path d, disk_nr_vdisks d)) (online_disks s) =
               map (\<lambda>d. (disk_path d, disk_nr_vdisks d)) (online_disks s')"
  shows "get_object_path s oid = get_object_path s' oid"
proof -
  from same have pts: "disks_points (online_disks s) 0 = disks_points (online_disks s') 0"
    by (rule disks_points_cong)
  from rb pts have nv: "md_nr_vds s = md_nr_vds s'"
    by (simp add: md_ring_rebuilt_def)
  from rb have "take (md_nr_vds s) (md_vds s) = sort_key vdisk_id (disks_points (online_disks s) 0)"
    "take (md_nr_vds s') (md_vds s') = sort_key vdisk_id (disks_points (online_disks s') 0)"
    unfolding md_ring_rebuilt_def by blast+
  with pts nv have tk: "take (md_nr_vds s) (md_vds s) = take (md_nr_vds s) (md_vds s')"
    by simp
  from same have "length (online_disks s) = length (online_disks s')"
    by (rule map_eq_imp_length_eq)
  with wf have nd: "md_nr_disks s = md_nr_disks s'"
    by (simp add: online_disks_def)
  have paths: "disk_path (md_disks s ! i) = disk_path (md_disks s' ! i)" if "i < md_nr_disks s" for i
  proof -
    have "map (\<lambda>d. (disk_path d, disk_nr_vdisks d)) (online_disks s) ! i =
          map (\<lambda>d. (disk_path d, disk_nr_vdisks d)) (online_disks s') ! i"
      by (simp only: same)
    with that wf nd show ?thesis
      by (simp add: online_disks_def)
  qed
  have look: "oid_to_vdisk s oid = oid_to_vdisk s' oid"
    unfolding oid_to_vdisk_def nv [symmetric]
    by (rule oid_to_vdisk_from_prefix) (use tk wf nv in simp_all)
  show ?thesis
  proof (cases "oid_to_vdisk s oid")
    case None
    with look en show ?thesis by (simp add: get_object_path_def)
  next
    case (Some y)
    show ?thesis
    proof (cases y)
      case (Inl e)
      with Some look en show ?thesis by (simp add: get_object_path_def)
    next
      case (Inr vd)
      with Some have "oid_to_vdisk_from (md_vds s) (int (md_nr_vds s)) oid = Some (Inr vd)"
        by (simp add: oid_to_vdisk_def)
      from oid_to_vdisk_from_index [OF this wf(3)] obtain k where
        k: "k < md_nr_vds s" "vd = md_vds s ! k" by auto
      then have "vd \<in> set (take (md_nr_vds s) (md_vds s))"
        using wf(3) by (auto simp: in_set_conv_nth intro!: exI [of _ k])
      moreover from rb(1)
      have "take (md_nr_vds s) (md_vds s) = sort_key vdisk_id (disks_points (online_disks s) 0)"
        unfolding md_ring_rebuilt_def by blast
      ultimately have "vd \<in> set (disks_points (online_disks s) 0)"
        by simp
      from disks_points_idx [OF this] obtain j where
        j: "j < length (online_disks s)" "vdisk_idx vd = of_nat j" by auto
      have "unat (vdisk_idx vd) \<le> j"
        by (simp add: j(2) unat_of_nat)
      with j(1) wf(1) have lt: "unat (vdisk_idx vd) < md_nr_disks s"
        by (simp add: online_disks_def)
      with wf nd have at: "disk_at (md_disks s) (unat (vdisk_idx vd)) =
            Inr (md_disks s ! unat (vdisk_idx vd))"
        "disk_at (md_disks s') (unat (vdisk_idx vd)) = Inr (md_disks s' ! unat (vdisk_idx vd))"
        by (simp_all add: disk_at_def)
      from Some Inr look have "oid_to_vdisk s' oid = Some (Inr vd)" by simp
      with Some Inr en at paths [OF lt] show ?thesis
        by (simp add: get_object_path_def)
    qed
  qed
qed

theorem get_object_path_same_disks_witness:
  "get_object_path (md_ab\<lparr>md_disks := [disk_a\<lparr>disk_space := 7\<rparr>, disk_b], sys_disk_space := 0\<rparr>) 1 =
     Some (Inr ''/d1'')"
proof -
  let ?s = "md_ab\<lparr>md_disks := [disk_a\<lparr>disk_space := 7\<rparr>, disk_b], sys_disk_space := 0\<rparr>"
  have pts: "disks_points [disk_a\<lparr>disk_space := 7\<rparr>, disk_b] 0 = disks_points [disk_a, disk_b] 0"
    by (rule disks_points_cong) (simp add: disk_a_def)
  have "online_disks ?s = [disk_a\<lparr>disk_space := 7\<rparr>, disk_b]"
    by (simp add: online_disks_def md_ab_def)
  then have rb: "md_ring_rebuilt ?s"
    by (simp add: md_ring_rebuilt_def pts points_ab del: disks_points.simps)
      (simp add: md_ab_def)
  have "get_object_path md_ab 1 = get_object_path ?s 1"
    by (rule get_object_path_same_disks [OF _ _ rebuilt_ab rb])
      (simp_all add: md_ab_def online_disks_def disk_a_def)
  with path_ab show ?thesis by simp
qed

text \<open>
  The claim C8 as written fails: \<^verbatim>\<open>disks_to_vdisks\<close> hashes the counter \<^verbatim>\<open>nmds\<close> of the
  disks still to visit into every point, so the ids of a disk depend on its position.
  With \<^verbatim>\<open>/d0\<close> before \<^verbatim>\<open>/d1\<close> object 1 is placed on \<^verbatim>\<open>/d1\<close>; with \<^verbatim>\<open>/d1\<close> before \<^verbatim>\<open>/d0\<close>
  it is placed on \<^verbatim>\<open>/d0\<close>.
\<close>

theorem get_object_path_order_counterexample:
  "md_ring_rebuilt md_ab \<and> md_ring_rebuilt md_ba \<and>
   online_disks md_ab = [disk_a, disk_b] \<and> online_disks md_ba = [disk_b, disk_a] \<and>
   get_object_path md_ab 1 = Some (Inr ''/d1'') \<and>
   get_object_path md_ba 1 = Some (Inr ''/d0'')"
  by (simp add: rebuilt_ab rebuilt_ba path_ab path_ba) (simp add: online_disks_def md_ab_def md_ba_def)

subsection \<open>Recovering from an I/O error\<close>

lemma path_to_disk_idx_from_Inr:
  "path_to_disk_idx_from s p i = Inr r \<Longrightarrow>
   (r = - 1 \<and> (\<forall>k. i \<le> k \<and> k < md_nr_disks s \<longrightarrow> disk_path (md_disks s ! k) \<noteq> p)) \<or>
   (\<exists>k. r = int k \<and> i \<le> k \<and> k < md_nr_disks s \<and> k < length (md_disks s) \<and>
        disk_path (md_disks s ! k) = p)"
proof (induction s p i rule: path_to_disk_idx_from.induct)
  case (1 s p i)
  show ?case
  proof (cases "i < md_nr_disks s")
    case False
    with "1.prems" show ?thesis
      by (auto simp add: path_to_disk_idx_from.simps [of s p i])
  next
    case True
    show ?thesis
    proof (cases "i < length (md_disks s)")
      case False
      with True "1.prems" show ?thesis
        by (simp add: path_to_disk_idx_from.simps [of s p i])
    next
      case len: True
      show ?thesis
      proof (cases "disk_path (md_disks s ! i) = p")
        case eq: True
        with True len "1.prems" have "r = int i"
          by (simp add: path_to_disk_idx_from.simps [of s p i])
        with True len eq show ?thesis by auto
      next
        case ne: False
        with True len "1.prems" have "path_to_disk_idx_from s p (Suc i) = Inr r"
          by (simp add: path_to_disk_idx_from.simps [of s p i])
        from "1.IH" [OF True len ne this] show ?thesis
        proof
          assume a: "r = - 1 \<and>
            (\<forall>k. Suc i \<le> k \<and> k < md_nr_disks s \<longrightarrow> disk_path (md_disks s ! k) \<noteq> p)"
          have "disk_path (md_disks s ! k) \<noteq> p" if "i \<le> k" "k < md_nr_disks s" for k
            using that a ne by (cases "k = i") auto
          with a show ?thesis by blast
        next
          assume "\<exists>k. r = int k \<and> Suc i \<le> k \<and> k < md_nr_disks s \<and> k < length (md_disks s) \<and>
            disk_path (md_disks s ! k) = p"
          then show ?thesis by auto
        qed
      qed
    qed
  qed
qed

lemma path_to_disk_idx_Inr:
  assumes "path_to_disk_idx s p = Inr r"
  shows "r = - 1 \<or> (0 \<le> r \<and> nat r < md_nr_disks s \<and> nat r < length (md_disks s) \<and>
           disk_path (md_disks s ! nat r) = p)"
  using path_to_disk_idx_from_Inr [of s p 0 r] assms
  by (auto simp: path_to_disk_idx_def)

lemma md_ring_rebuilt_frame:
  assumes "md_disks s' = md_disks s" "md_nr_disks s' = md_nr_disks s" "md_vds s' = md_vds s"
    "md_nr_vds s' = md_nr_vds s"
  shows "md_ring_rebuilt s' = md_ring_rebuilt s" and "online_disks s' = online_disks s"
  by (simp_all add: md_ring_rebuilt_def online_disks_def assms)

lemma md_do_recover_removed:
  assumes idx: "path_to_disk_idx s (mw_path mw) = Inr r" "0 \<le> r"
    and rec: "md_do_recover env s mw = Inr s'"
  shows "md_nr_disks s' < md_nr_disks s"
    and "subseq (map disk_path (online_disks s'))
           (map disk_path (take (nat r) (online_disks s) @ drop (Suc (nat r)) (online_disks s)))"
    and "sys_disk_space s' = sum_list (map disk_space (online_disks s'))"
    and "0 < md_nr_disks s' \<longrightarrow>
           md_ring_rebuilt s' \<and> started_recoveries s' = started_recoveries s + 1"
    and "md_nr_disks s' = 0 \<longrightarrow>
           md_vds s' = md_vds s \<and> md_nr_vds s' = md_nr_vds s \<and>
           started_recoveries s' = started_recoveries s"
proof -
  from path_to_disk_idx_Inr [OF idx(1)] idx(2)
  have r: "nat r < md_nr_disks s" "nat r < length (md_disks s)" by auto
  from rec idx obtain s1 t s2 where
    rm: "remove_disk s (nat r) = Inr s1" and init: "md_init_space env s1 = Inr (t, s2)"
    and s': "s' = (if 0 < md_nr_disks s2 then kick_recover (s2\<lparr>sys_disk_space := t\<rparr>)
                   else s2\<lparr>sys_disk_space := t\<rparr>)"
    by (auto simp: md_do_recover_def Let_def split: sum.splits if_splits)
  note R = remove_disk_Inr [OF rm r]
  from md_init_space_post [OF init] have P: "md_init_post s1 t s2" .
  have fr: "md_disks s' = md_disks s2" "md_nr_disks s' = md_nr_disks s2" "md_vds s' = md_vds s2"
    "md_nr_vds s' = md_nr_vds s2"
    by (simp_all add: s' kick_recover_def)
  note F = md_ring_rebuilt_frame [OF fr]
  from P have "md_nr_disks s2 \<le> md_nr_disks s1"
    by (simp add: md_init_post_def)
  with R(1) r show "md_nr_disks s' < md_nr_disks s"
    by (simp add: fr)
  have "take (nat r) (md_disks s) = take (nat r) (online_disks s)"
    using r by (simp add: online_disks_def min_def)
  with R(4) have "online_disks s1 = take (nat r) (online_disks s) @ drop (Suc (nat r)) (online_disks s)"
    by simp
  with P show "subseq (map disk_path (online_disks s'))
           (map disk_path (take (nat r) (online_disks s) @ drop (Suc (nat r)) (online_disks s)))"
    by (simp add: md_init_post_def F)
  from P show "sys_disk_space s' = sum_list (map disk_space (online_disks s'))"
    by (simp add: md_init_post_def F) (simp add: s' kick_recover_def)
  from P R show "0 < md_nr_disks s' \<longrightarrow>
           md_ring_rebuilt s' \<and> started_recoveries s' = started_recoveries s + 1"
    by (simp add: md_init_post_def F fr) (simp add: s' kick_recover_def)
  from P R show "md_nr_disks s' = 0 \<longrightarrow>
           md_vds s' = md_vds s \<and> md_nr_vds s' = md_nr_vds s \<and>
           started_recoveries s' = started_recoveries s"
    by (simp add: md_init_post_def fr) (simp add: s' kick_recover_def)
qed

lemma md_one_idx: "path_to_disk_idx md_one ''/d0'' = Inr 0"
  by (simp add: path_to_disk_idx_def path_to_disk_idx_from.simps [of _ _ 0] md_one_def)

lemma md_one_recover:
  "md_do_recover env_small md_one mw_d0 = Inr (md_one\<lparr>md_nr_disks := 0, sys_disk_space := 0\<rparr>)"
proof -
  have rm: "remove_disk md_one 0 = Inr (md_one\<lparr>md_nr_disks := 0\<rparr>)"
    by (simp add: remove_disk_def remove_disk_loop.simps [of _ 0] md_one_def)
  show ?thesis
    by (simp add: md_do_recover_def mw_d0_def md_one_idx rm md_init_space_def)
qed

lemma md_two_idx: "path_to_disk_idx md_two ''/d0'' = Inr 0"
  by (simp add: path_to_disk_idx_def path_to_disk_idx_from.simps [of _ _ 0] md_two_def)

lemma md_two_remove:
  "remove_disk md_two 0 =
     Inr (md_two\<lparr>md_disks := [\<lparr>disk_path = ''/d1'', disk_nr_vdisks = 2, disk_space = 4096000\<rparr>,
                                \<lparr>disk_path = ''/d1'', disk_nr_vdisks = 2, disk_space = 4096000\<rparr>],
                  md_nr_disks := 1\<rparr>)"
  by (simp add: remove_disk_def remove_disk_loop.simps [of _ 0]
      remove_disk_loop.simps [of _ "Suc 0"] md_two_def)

lemma length_disk_points: "length (disk_points nmds p ix n hval) = n"
  by (induction n arbitrary: hval) (simp_all add: Let_def)

lemma md_two_init:
  "\<exists>t s2. md_init_space env_small
       (md_two\<lparr>md_disks := [\<lparr>disk_path = ''/d1'', disk_nr_vdisks = 2, disk_space = 4096000\<rparr>,
                              \<lparr>disk_path = ''/d1'', disk_nr_vdisks = 2, disk_space = 4096000\<rparr>],
                md_nr_disks := 1\<rparr>) = Inr (t, s2) \<and> md_nr_disks s2 = 1"
  by (simp add: md_init_space_def
      md_init_space_scan.simps [of _ _ 0] md_init_space_scan.simps [of _ _ "Suc 0"]
      init_path_space_def get_path_size_def calculate_vdisks_def disks_to_vdisks_def
      md_two_def fs_fresh_def pf_fresh_def env_small_def Let_def length_disk_points)

lemma md_two_recover:
  "\<exists>s'. md_do_recover env_small md_two mw_d0 = Inr s' \<and> 0 < md_nr_disks s'"
proof -
  from md_two_init obtain t s2 where
    "md_init_space env_small
       (md_two\<lparr>md_disks := [\<lparr>disk_path = ''/d1'', disk_nr_vdisks = 2, disk_space = 4096000\<rparr>,
                              \<lparr>disk_path = ''/d1'', disk_nr_vdisks = 2, disk_space = 4096000\<rparr>],
                md_nr_disks := 1\<rparr>) = Inr (t, s2)" "md_nr_disks s2 = 1"
    by blast
  then show ?thesis
    by (simp add: md_do_recover_def mw_d0_def md_two_idx md_two_remove kick_recover_def)
qed

text \<open>
  C6 (as the code has it). \<^verbatim>\<open>md_handle_eio\<close> returns \<^verbatim>\<open>SD_RES_EIO\<close> and changes nothing
  when multi-disk is disabled or no disk is online; otherwise it returns
  \<^verbatim>\<open>SD_RES_NETWORK_ERROR\<close> and appends to the pending list of \<^verbatim>\<open>sys->md_wqueue\<close> a work item
  whose \<^verbatim>\<open>done\<close> is \<^verbatim>\<open>md_do_recover\<close> and whose path is the faulty path.
  \<^verbatim>\<open>md_do_recover\<close> changes nothing when the path is not among the disks in use. When
  it is, at index \<open>r\<close>, and \<^verbatim>\<open>md_do_recover\<close> returns: fewer disks are in use, their
  paths are among the former ones without the one at index \<open>r\<close>, the disk space is the
  sum of the space of the disks in use, and, if at least one disk remains, the ring
  has been rebuilt from them and one more recovery has been started; if none remains,
  the ring is left as it was and no recovery is started.
\<close>

theorem md_handle_eio_and_recover:
  "(\<not> sys_enable_md s \<or> md_nr_disks s = 0 \<longrightarrow> md_handle_eio env s p = (SD_RES_EIO, s)) \<and>
   (sys_enable_md s \<and> md_nr_disks s \<noteq> 0 \<longrightarrow>
      fst (md_handle_eio env s p) = SD_RES_NETWORK_ERROR \<and>
      pending_list (sys_md_wqueue (snd (md_handle_eio env s p))) =
        pending_list (sys_md_wqueue s) @
          [\<lparr>work_fn = None, work_done = Some MD_DO_RECOVER, mw_path = p\<rparr>]) \<and>
   (path_to_disk_idx s (mw_path mw) = Inr r \<and> r < 0 \<longrightarrow> md_do_recover env s mw = Inr s) \<and>
   (path_to_disk_idx s (mw_path mw) = Inr r \<and> 0 \<le> r \<and> md_do_recover env s mw = Inr s' \<longrightarrow>
      md_nr_disks s' < md_nr_disks s \<and>
      subseq (map disk_path (online_disks s'))
        (map disk_path (take (nat r) (online_disks s) @ drop (Suc (nat r)) (online_disks s))) \<and>
      sys_disk_space s' = sum_list (map disk_space (online_disks s')) \<and>
      (0 < md_nr_disks s' \<longrightarrow>
         md_ring_rebuilt s' \<and> started_recoveries s' = started_recoveries s + 1) \<and>
      (md_nr_disks s' = 0 \<longrightarrow>
         md_vds s' = md_vds s \<and> md_nr_vds s' = md_nr_vds s \<and>
         started_recoveries s' = started_recoveries s))"
proof (intro conjI impI)
  assume "\<not> sys_enable_md s \<or> md_nr_disks s = 0"
  then show "md_handle_eio env s p = (SD_RES_EIO, s)"
    by (auto simp: md_handle_eio_def nr_online_disks_def)
next
  assume a: "sys_enable_md s \<and> md_nr_disks s \<noteq> 0"
  then show "fst (md_handle_eio env s p) = SD_RES_NETWORK_ERROR"
    by (simp add: md_handle_eio_queued)
  from a show "pending_list (sys_md_wqueue (snd (md_handle_eio env s p))) =
        pending_list (sys_md_wqueue s) @
          [\<lparr>work_fn = None, work_done = Some MD_DO_RECOVER, mw_path = p\<rparr>]"
    by (simp add: md_handle_eio_queued)
next
  assume "path_to_disk_idx s (mw_path mw) = Inr r \<and> r < 0"
  then show "md_do_recover env s mw = Inr s"
    by (simp add: md_do_recover_def)
next
  assume a: "path_to_disk_idx s (mw_path mw) = Inr r \<and> 0 \<le> r \<and> md_do_recover env s mw = Inr s'"
  then have idx: "path_to_disk_idx s (mw_path mw) = Inr r" "0 \<le> r"
    and rec: "md_do_recover env s mw = Inr s'" by simp_all
  note M = md_do_recover_removed [OF idx rec]
  from M(1) show "md_nr_disks s' < md_nr_disks s" .
  from M(2) show "subseq (map disk_path (online_disks s'))
        (map disk_path (take (nat r) (online_disks s) @ drop (Suc (nat r)) (online_disks s)))" .
  from M(3) show "sys_disk_space s' = sum_list (map disk_space (online_disks s'))" .
  {
    assume "0 < md_nr_disks s'"
    with M(4) show "md_ring_rebuilt s'" "started_recoveries s' = started_recoveries s + 1"
      by simp_all
  }
  {
    assume "md_nr_disks s' = 0"
    with M(5) show "md_vds s' = md_vds s" "md_nr_vds s' = md_nr_vds s"
      "started_recoveries s' = started_recoveries s"
      by simp_all
  }
qed

theorem md_handle_eio_and_recover_witness:
  "md_handle_eio env_small md_empty ''/d0'' = (SD_RES_EIO, md_empty) \<and>
   fst (md_handle_eio env_small md_two ''/d0'') = SD_RES_NETWORK_ERROR \<and>
   md_do_recover env_small md_two \<lparr>work_fn = None, work_done = None, mw_path = ''/d7''\<rparr> =
     Inr md_two \<and>
   (\<exists>s'. md_do_recover env_small md_two mw_d0 = Inr s' \<and> md_nr_disks s' = 1 \<and>
         md_ring_rebuilt s' \<and> started_recoveries s' = 2 \<and>
         sys_disk_space s' = sum_list (map disk_space (online_disks s')))"
proof -
  from md_two_recover obtain s' where
    rec: "md_do_recover env_small md_two mw_d0 = Inr s'" and pos: "0 < md_nr_disks s'"
    by blast
  have idx: "path_to_disk_idx md_two (mw_path mw_d0) = Inr 0"
    by (simp add: mw_d0_def md_two_idx)
  have idx7: "path_to_disk_idx md_two
      (mw_path \<lparr>work_fn = None, work_done = None, mw_path = ''/d7''\<rparr>) = Inr (- 1)"
    by (simp add: path_to_disk_idx_def path_to_disk_idx_from.simps [of _ _ 0]
        path_to_disk_idx_from.simps [of _ _ "Suc 0"]
        path_to_disk_idx_from.simps [of _ _ "Suc (Suc 0)"] md_two_def)
  have on: "md_nr_disks md_two = 2" "started_recoveries md_two = 1" "sys_enable_md md_two"
    by (simp_all add: md_two_def)
  have e: "\<not> sys_enable_md md_empty"
    by (simp add: md_empty_def)
  from md_handle_eio_and_recover [of md_empty env_small "''/d0''" mw_d0 0 md_empty] e
  have c1: "md_handle_eio env_small md_empty ''/d0'' = (SD_RES_EIO, md_empty)"
    by blast
  from md_handle_eio_and_recover
    [of md_two env_small "''/d0''" "\<lparr>work_fn = None, work_done = None, mw_path = ''/d7''\<rparr>"
      "- 1" md_two] idx7 on
  have c2: "fst (md_handle_eio env_small md_two ''/d0'') = SD_RES_NETWORK_ERROR"
    and c3: "md_do_recover env_small md_two
      \<lparr>work_fn = None, work_done = None, mw_path = ''/d7''\<rparr> = Inr md_two"
    by simp_all
  from md_handle_eio_and_recover [of md_two env_small "''/d0''" mw_d0 0 s'] idx rec pos on
  have lt: "md_nr_disks s' < 2" and rb: "md_ring_rebuilt s'" "started_recoveries s' = 2"
    and sp: "sys_disk_space s' = sum_list (map disk_space (online_disks s'))"
    by simp_all
  from lt pos have "md_nr_disks s' = 1" by simp
  with c1 c2 c3 rec rb sp show ?thesis
    by blast
qed

text \<open>
  The claim C6 as written fails for the last disk: when \<^verbatim>\<open>md_do_recover\<close> removes the
  only disk of \<open>md_one\<close>, \<^verbatim>\<open>md_init_space\<close> returns at once, and the ring keeps the two
  points of the removed disk although no disk is in use.
\<close>

theorem md_do_recover_last_disk_counterexample:
  "md_do_recover env_small md_one mw_d0 = Inr (md_one\<lparr>md_nr_disks := 0, sys_disk_space := 0\<rparr>) \<and>
   online_disks (md_one\<lparr>md_nr_disks := 0, sys_disk_space := 0\<rparr>) = [] \<and>
   md_nr_vds (md_one\<lparr>md_nr_disks := 0, sys_disk_space := 0\<rparr>) = 2 \<and>
   \<not> md_ring_rebuilt (md_one\<lparr>md_nr_disks := 0, sys_disk_space := 0\<rparr>)"
  by (simp add: md_one_recover) (simp add: online_disks_def md_ring_rebuilt_def md_one_def)

subsection \<open>Plugging and unplugging\<close>

lemma remove_disk_frame:
  assumes "remove_disk s idx = Inr s'"
  shows "md_vds s' = md_vds s" "md_nr_vds s' = md_nr_vds s"
    "started_recoveries s' = started_recoveries s" "sys_disk_space s' = sys_disk_space s"
  using assms by (auto simp: remove_disk_def split: sum.splits)

lemma md_add_disk_frame:
  assumes "md_add_disk s p = Inr s'"
  shows "md_vds s' = md_vds s" "md_nr_vds s' = md_nr_vds s"
    "started_recoveries s' = started_recoveries s" "sys_disk_space s' = sys_disk_space s"
  using assms by (auto simp: md_add_disk_def Let_def split: sum.splits if_splits)

lemma md_del_disk_frame:
  assumes "md_del_disk s p = Inr s'"
  shows "md_vds s' = md_vds s" "md_nr_vds s' = md_nr_vds s"
    "started_recoveries s' = started_recoveries s" "sys_disk_space s' = sys_disk_space s"
  using assms remove_disk_frame
  by (auto simp: md_del_disk_def split: sum.splits if_splits)

lemma plug_unplug_paths_frame:
  "plug_unplug_paths s ps plug = Inr s' \<Longrightarrow>
   md_vds s' = md_vds s \<and> md_nr_vds s' = md_nr_vds s \<and>
   started_recoveries s' = started_recoveries s \<and> sys_disk_space s' = sys_disk_space s"
proof (induction ps arbitrary: s)
  case Nil
  then show ?case by simp
next
  case (Cons p ps)
  from Cons.prems obtain s1 where
    step: "(if plug then md_add_disk s p else md_del_disk s p) = Inr s1"
    and rest: "plug_unplug_paths s1 ps plug = Inr s'"
    by (auto split: sum.splits)
  from step have "md_vds s1 = md_vds s \<and> md_nr_vds s1 = md_nr_vds s \<and>
     started_recoveries s1 = started_recoveries s \<and> sys_disk_space s1 = sys_disk_space s"
    using md_add_disk_frame [of s p s1] md_del_disk_frame [of s p s1]
    by (cases plug) simp_all
  with Cons.IH [OF rest] show ?case by simp
qed

lemma md_one_plug_d0: "plug_unplug_paths md_one [''/d0''] True = Inr md_one"
  by (simp add: md_add_disk_def md_one_idx)

lemma md_one_unplug_d9: "plug_unplug_paths md_one [''/d9''] False = Inr md_one"
  by (simp add: md_del_disk_def path_to_disk_idx_def path_to_disk_idx_from.simps [of _ _ 0]
      path_to_disk_idx_from.simps [of _ _ "Suc 0"] md_one_def)

lemma md_one_plug_d1:
  "\<exists>s1. plug_unplug_paths md_one (split_commas ''/d1'' []) True = Inr s1 \<and> md_nr_disks s1 = 2 \<and>
    (\<exists>s'. do_plug_unplug env_small md_one ''/d1'' True = Inr (SD_RES_SUCCESS, s') \<and>
          md_nr_disks s' = 2)"
  by (simp add: do_plug_unplug_def md_add_disk_def path_to_disk_idx_def
      path_to_disk_idx_from.simps [of _ _ 0] path_to_disk_idx_from.simps [of _ _ "Suc 0"]
      md_init_space_def md_init_space_scan.simps [of _ _ 0]
      md_init_space_scan.simps [of _ _ "Suc 0"] md_init_space_scan.simps [of _ _ "Suc (Suc 0)"]
      init_path_space_def get_path_size_def calculate_vdisks_def disks_to_vdisks_def
      md_one_def fs_fresh_def pf_fresh_def env_small_def Let_def length_disk_points
      kick_recover_def disk_zero_def)

text \<open>
  C7 (as the code has it). \<open>s1\<close> is the state after the paths of the list have been
  added or removed. When a plug or unplug leaves the number of disks in use unchanged,
  \<^verbatim>\<open>do_plug_unplug\<close> returns \<^verbatim>\<open>SD_RES_UNKNOWN\<close> and leaves the ring, the disk space and
  the recoveries as they were. When the number changes it returns \<^verbatim>\<open>SD_RES_SUCCESS\<close>
  after \<^verbatim>\<open>md_init_space\<close>: the disk space is the sum over the disks in use, and, if at
  least one disk remains, the ring has been rebuilt and one more recovery has been
  started; if none remains the ring is left as it was and no recovery is started.
\<close>

theorem do_plug_unplug_result:
  "plug_unplug_paths s (split_commas disks []) plug = Inr s1 \<and>
   do_plug_unplug env s disks plug = Inr (ret, s') \<longrightarrow>
     (md_nr_disks s1 = md_nr_disks s \<longrightarrow>
        ret = SD_RES_UNKNOWN \<and> s' = s1 \<and> md_vds s' = md_vds s \<and> md_nr_vds s' = md_nr_vds s \<and>
        started_recoveries s' = started_recoveries s \<and> sys_disk_space s' = sys_disk_space s) \<and>
     (md_nr_disks s1 \<noteq> md_nr_disks s \<longrightarrow>
        ret = SD_RES_SUCCESS \<and>
        sys_disk_space s' = sum_list (map disk_space (online_disks s')) \<and>
        subseq (map disk_path (online_disks s')) (map disk_path (online_disks s1)) \<and>
        (0 < md_nr_disks s' \<longrightarrow>
           md_ring_rebuilt s' \<and> started_recoveries s' = started_recoveries s + 1) \<and>
        (md_nr_disks s' = 0 \<longrightarrow>
           md_vds s' = md_vds s \<and> md_nr_vds s' = md_nr_vds s \<and>
           started_recoveries s' = started_recoveries s))"
proof (intro impI)
  assume a: "plug_unplug_paths s (split_commas disks []) plug = Inr s1 \<and>
    do_plug_unplug env s disks plug = Inr (ret, s')"
  then have paths: "plug_unplug_paths s (split_commas disks []) plug = Inr s1"
    and res: "do_plug_unplug env s disks plug = Inr (ret, s')" by simp_all
  note F = plug_unplug_paths_frame [OF paths]
  from res obtain p ps where toks: "split_commas disks [] = p # ps"
    by (cases "split_commas disks []") (simp_all add: do_plug_unplug_def)
  show "(md_nr_disks s1 = md_nr_disks s \<longrightarrow>
        ret = SD_RES_UNKNOWN \<and> s' = s1 \<and> md_vds s' = md_vds s \<and> md_nr_vds s' = md_nr_vds s \<and>
        started_recoveries s' = started_recoveries s \<and> sys_disk_space s' = sys_disk_space s) \<and>
     (md_nr_disks s1 \<noteq> md_nr_disks s \<longrightarrow>
        ret = SD_RES_SUCCESS \<and>
        sys_disk_space s' = sum_list (map disk_space (online_disks s')) \<and>
        subseq (map disk_path (online_disks s')) (map disk_path (online_disks s1)) \<and>
        (0 < md_nr_disks s' \<longrightarrow>
           md_ring_rebuilt s' \<and> started_recoveries s' = started_recoveries s + 1) \<and>
        (md_nr_disks s' = 0 \<longrightarrow>
           md_vds s' = md_vds s \<and> md_nr_vds s' = md_nr_vds s \<and>
           started_recoveries s' = started_recoveries s))"
  proof (cases "md_nr_disks s1 = md_nr_disks s")
    case True
    with res paths toks have "ret = SD_RES_UNKNOWN" "s' = s1"
      by (simp_all add: do_plug_unplug_def Let_def)
    with True F show ?thesis by simp
  next
    case False
    with res paths toks obtain t s2 where
      init: "md_init_space env s1 = Inr (t, s2)" and ret: "ret = SD_RES_SUCCESS"
      and s': "s' = (if 0 < md_nr_disks s2 then kick_recover (s2\<lparr>sys_disk_space := t\<rparr>)
                     else s2\<lparr>sys_disk_space := t\<rparr>)"
      by (auto simp add: do_plug_unplug_def Let_def split: sum.splits)
    from md_init_space_post [OF init] have P: "md_init_post s1 t s2" .
    have fr: "md_disks s' = md_disks s2" "md_nr_disks s' = md_nr_disks s2" "md_vds s' = md_vds s2"
      "md_nr_vds s' = md_nr_vds s2"
      by (simp_all add: s' kick_recover_def)
    note G = md_ring_rebuilt_frame [OF fr]
    from P have "sys_disk_space s' = sum_list (map disk_space (online_disks s'))"
      by (simp add: md_init_post_def G) (simp add: s' kick_recover_def)
    moreover from P have "subseq (map disk_path (online_disks s')) (map disk_path (online_disks s1))"
      by (simp add: md_init_post_def G)
    moreover from P F have "0 < md_nr_disks s' \<longrightarrow>
           md_ring_rebuilt s' \<and> started_recoveries s' = started_recoveries s + 1"
      by (simp add: md_init_post_def G fr) (simp add: s' kick_recover_def)
    moreover from P F have "md_nr_disks s' = 0 \<longrightarrow>
           md_vds s' = md_vds s \<and> md_nr_vds s' = md_nr_vds s \<and>
           started_recoveries s' = started_recoveries s"
      by (simp add: md_init_post_def fr) (simp add: s' kick_recover_def)
    ultimately show ?thesis
      using False ret by simp
  qed
qed

theorem do_plug_unplug_result_witness:
  "md_plug_disks env_small md_one ''/d0'' = Inr (SD_RES_UNKNOWN, md_one) \<and>
   (\<exists>s'. md_plug_disks env_small md_one ''/d1'' = Inr (SD_RES_SUCCESS, s') \<and>
         md_nr_disks s' = 2 \<and> md_ring_rebuilt s' \<and> started_recoveries s' = 2 \<and>
         sys_disk_space s' = sum_list (map disk_space (online_disks s')))"
proof -
  have u: "do_plug_unplug env_small md_one ''/d0'' True = Inr (SD_RES_UNKNOWN, md_one)"
    and p0: "plug_unplug_paths md_one (split_commas ''/d0'' []) True = Inr md_one"
    by (simp_all add: do_plug_unplug_def md_one_plug_d0 del: plug_unplug_paths.simps)
  from md_one_plug_d1 obtain s1 s' where
    p1: "plug_unplug_paths md_one (split_commas ''/d1'' []) True = Inr s1"
    and n1: "md_nr_disks s1 = 2"
    and r1: "do_plug_unplug env_small md_one ''/d1'' True = Inr (SD_RES_SUCCESS, s')"
    and n': "md_nr_disks s' = 2"
    by blast
  have one: "md_nr_disks md_one = 1" "started_recoveries md_one = 1"
    by (simp_all add: md_one_def)
  from do_plug_unplug_result [of md_one "''/d1''" True s1 env_small SD_RES_SUCCESS s'] p1 r1 n1 n' one
  have "md_ring_rebuilt s'" "started_recoveries s' = 2"
    "sys_disk_space s' = sum_list (map disk_space (online_disks s'))"
    by simp_all
  with u r1 n' show ?thesis
    by (auto simp: md_plug_disks_def)
qed

text \<open>
  The claim C7 as written fails: plugging \<^verbatim>\<open>/d0\<close> where \<^verbatim>\<open>/d0\<close> is already in use, and
  unplugging \<^verbatim>\<open>/d9\<close> which is not in use, leave the number of disks unchanged and
  return \<^verbatim>\<open>SD_RES_UNKNOWN\<close>, not \<^verbatim>\<open>SD_RES_SUCCESS\<close>.
\<close>

theorem do_plug_unplug_unchanged_counterexample:
  "plug_unplug_paths md_one (split_commas ''/d0'' []) True = Inr md_one \<and>
   md_plug_disks env_small md_one ''/d0'' = Inr (SD_RES_UNKNOWN, md_one) \<and>
   plug_unplug_paths md_one (split_commas ''/d9'' []) False = Inr md_one \<and>
   md_unplug_disks env_small md_one ''/d9'' = Inr (SD_RES_UNKNOWN, md_one)"
  by (simp add: md_plug_disks_def md_unplug_disks_def do_plug_unplug_def md_one_plug_d0
      md_one_unplug_d9 del: plug_unplug_paths.simps)
end
